theory Spec2Isabelle
  imports Main
begin

section \<open>The ClawCloud automatic login script (scripts/auto\_login.py)\<close>

text \<open>
  The script drives a browser through a GitHub OAuth login, talks to an operator over
  Telegram and stores the renewed session cookie as a repository secret.  Everything it
  does to the outside world goes through library calls.  The embedding keeps the script's
  own control flow and makes the outside world an explicit part of the state: the wall
  clock, the page URL, the Telegram inbox, the files on disk, the list of answers the
  outside world will give to the calls still to come, and the list of calls made so far.

  Python strings are modelled as \<open>string\<close>; a \<open>char\<close> is one code point below 256, so
  the character classes below are those of Python on Latin-1 text.  Log lines and
  Telegram texts, which the source writes in Chinese, are kept as a level with an English
  gloss, respectively as one constructor for each text; values interpolated into a log
  line are left out of the gloss.
\<close>

subsection \<open>Strings\<close>

text \<open>\<open>sub in s\<close> of Python: \<open>sub\<close> occurs in \<open>s\<close> as a contiguous piece.\<close>

fun contains :: "string \<Rightarrow> string \<Rightarrow> bool" where
  "contains sub [] = (sub = [])"
| "contains sub (c # cs) = (take (length sub) (c # cs) = sub \<or> contains sub cs)"

text \<open>\<open>str.lower\<close>: the letters A-Z and the Latin-1 capitals move up by 32.\<close>

definition lower_char :: "char \<Rightarrow> char" where
  "lower_char c =
     (let k = (of_char c :: nat)
      in if (65 \<le> k \<and> k \<le> 90) \<or> (192 \<le> k \<and> k \<le> 222 \<and> k \<noteq> 215)
         then char_of (k + 32) else c)"

definition lower :: "string \<Rightarrow> string" where
  "lower s = map lower_char s"

text \<open>
  White space as \<open>str.strip\<close> and the pattern class \<open>\s\<close> see it: tab to carriage
  return, the four separators 28-31, the blank, NEL and the no-break space.
\<close>

definition isspace :: "char \<Rightarrow> bool" where
  "isspace c =
     (let k = (of_char c :: nat)
      in (9 \<le> k \<and> k \<le> 13) \<or> (28 \<le> k \<and> k \<le> 32) \<or> k = 133 \<or> k = 160)"

text \<open>The pattern class \<open>\d\<close>: below code point 256 the decimal digits are 0-9.\<close>

definition isdigit :: "char \<Rightarrow> bool" where
  "isdigit c = (let k = (of_char c :: nat) in 48 \<le> k \<and> k \<le> 57)"

definition strip :: "string \<Rightarrow> string" where
  "strip s = rev (dropWhile isspace (rev (dropWhile isspace s)))"

text \<open>
  \<open>re.compile(r"^/code\s+(\d{6,8})$").match(text)\<close> on a stripped text: the token, at
  least one white space character, then six to eight digits up to the end.  The result is
  group 1.  White space and digits are disjoint, so the greedy \<open>\s+\<close> takes the whole
  run of white space and no backtracking changes the outcome.
\<close>

definition pattern_match :: "string \<Rightarrow> string option" where
  "pattern_match t =
     (if take 5 t = ''/code'' then
        (let rest = drop 5 t;
             ds = dropWhile isspace rest
         in if takeWhile isspace rest \<noteq> [] \<and> 6 \<le> length ds \<and> length ds \<le> 8
               \<and> list_all isdigit ds
            then Some ds else None)
      else None)"

text \<open>\<open>str\<close> of an integer, and \<open>f"{n:02d}"\<close>.\<close>

function str_nat :: "nat \<Rightarrow> string" where
  "str_nat k = (if k < 10 then [char_of (48 + k)]
                else str_nat (k div 10) @ [char_of (48 + k mod 10)])"
  by pat_completeness auto
termination
  by (relation "measure id") auto

declare str_nat.simps [simp del]

definition str_int :: "int \<Rightarrow> string" where
  "str_int i = (if i < 0 then CHR ''-'' # str_nat (nat (- i)) else str_nat (nat i))"

definition pad2 :: "nat \<Rightarrow> string" where
  "pad2 k = (if k < 10 then CHR ''0'' # str_nat k else str_nat k)"

text \<open>Truthiness of an optional string: \<open>None\<close> and the empty string are false.\<close>

definition truthy :: "string option \<Rightarrow> bool" where
  "truthy v = (case v of None \<Rightarrow> False | Some x \<Rightarrow> x \<noteq> [])"

subsection \<open>Data\<close>

datatype level = INFO | SUCCESS | ERROR | WARN | STEP

type_synonym logline = "level \<times> string"

text \<open>One Telegram update: its id and, when the update carries one, the message.\<close>

record msg =
  chat_id :: int
  msg_text :: "string option"

record update =
  update_id :: int
  message :: "msg option"

record cookie =
  c_name :: string
  c_domain :: "string option"
  c_value :: string

text \<open>
  The environment variables the three classes read in their constructors; \<open>gh_session\<close>
  is \<open>GH_SESSION\<close> as it is set, the empty string when it is not.
\<close>

record config =
  username :: "string option"
  password :: "string option"
  gh_session :: string
  tg_token :: "string option"
  tg_chat_id :: "string option"
  repo_token :: "string option"
  repo :: "string option"

definition tg_ok :: "config \<Rightarrow> bool" where
  "tg_ok c = (truthy (tg_token c) \<and> truthy (tg_chat_id c))"

definition secret_ok :: "config \<Rightarrow> bool" where
  "secret_ok c = (truthy (repo_token c) \<and> truthy (repo c))"

text \<open>The texts the script sends to the operator, in the order of the source.\<close>

datatype tg_text =
    CookieUpdated
  | NewCookie string
  | DeviceNeeded
  | DeviceApproved
  | DeviceApprovedForced
  | DeviceTimeout
  | MobileNeeded
  | MobileApproved
  | MobileTimeout
  | CodeNeeded
  | CodeTimeout
  | CodeReceived
  | CodeAccepted
  | CodeWrong
  | CodeFieldMissing
  | Report bool "string option" string "logline list"

datatype load_state = networkidle | domcontentloaded

text \<open>
  The calls that leave the process.  A locator call names its selector and the index of
  the element (\<open>.first\<close> is index 0); time-outs are in milliseconds as in the source,
  \<open>Sleep\<close> and the long-poll time-out of \<open>GetUpdates\<close> in seconds.
\<close>

datatype action =
    Sleep nat
  | SendMessage tg_text
  | SendPhoto string string
  | GetUpdates nat "int option"
  | ImportNacl
  | GetPublicKey
  | Seal string string
  | PutSecret string string
  | Screenshot string
  | IsVisible string nat nat
  | Click string nat
  | Fill string "string option"
  | Press string
  | InnerText string
  | LocatorAll string
  | LocatorCount string
  | Goto string nat
  | WaitForLoadState load_state nat
  | Reload nat
  | Cookies
  | AddCookies "cookie list"
  | Launch
  | BrowserClose

text \<open>
  What the outside world answers to one call: how long the call took (milliseconds),
  whether it raised, the page URL once it is over, the updates that reached the Telegram
  inbox meanwhile, and the payload the call asked for (only the field that belongs to the
  call is read).
\<close>

record reply =
  took :: nat
  raised :: "string option"
  url_after :: string
  arrivals :: "update list"
  visible :: bool
  status :: nat
  api_ok :: bool
  jar :: "cookie list"
  body :: string
  count :: nat

text \<open>
  The state: the three mutable fields of the \<open>AutoLogin\<close> object, the standard output,
  and the outside world.
\<close>

record state =
  logs :: "logline list"
  shots :: "string list"
  shot_no :: nat
  stdout :: "string list"
  clock :: nat
  page_url :: string
  inbox :: "update list"
  files :: "string list"
  future :: "reply list"
  trace :: "action list"

subsection \<open>Calls to the outside world\<close>

text \<open>When the list of answers is used up the world stops answering: the call raises.\<close>

definition silent :: "string \<Rightarrow> reply" where
  "silent u = \<lparr>took = 0, raised = Some ''no answer'', url_after = u, arrivals = [],
      visible = False, status = 0, api_ok = False, jar = [], body = [], count = 0\<rparr>"

definition perform :: "action \<Rightarrow> state \<Rightarrow> reply \<times> state" where
  "perform a s =
     (case future s of
        [] \<Rightarrow> (silent (page_url s), s\<lparr>trace := trace s @ [a]\<rparr>)
      | r # rs \<Rightarrow>
          (r, s\<lparr>clock := clock s + took r, page_url := url_after r,
                inbox := inbox s @ arrivals r, future := rs, trace := trace s @ [a]\<rparr>))"

text \<open>\<open>time.sleep(secs)\<close> never raises and lasts at least \<open>secs\<close> seconds.\<close>

definition sleep :: "nat \<Rightarrow> state \<Rightarrow> state" where
  "sleep secs s = (let s1 = snd (perform (Sleep secs) s) in s1\<lparr>clock := clock s1 + 1000 * secs\<rparr>)"

subsection \<open>Telegram: send and photo\<close>

definition send :: "config \<Rightarrow> tg_text \<Rightarrow> state \<Rightarrow> state" where
  "send c m s = (if \<not> tg_ok c then s else snd (perform (SendMessage m) s))"

definition photo :: "config \<Rightarrow> string \<Rightarrow> string \<Rightarrow> state \<Rightarrow> state" where
  "photo c path caption s =
     (if \<not> tg_ok c \<or> path \<notin> set (files s) then s
      else snd (perform (SendPhoto path (take 1024 caption)) s))"

subsection \<open>SecretUpdater.update\<close>

definition print :: "string \<Rightarrow> state \<Rightarrow> state" where
  "print line s = s\<lparr>stdout := stdout s @ [line]\<rparr>"

definition update :: "config \<Rightarrow> string \<Rightarrow> string \<Rightarrow> state \<Rightarrow> bool \<times> state" where
  "update c name v s =
     (if \<not> secret_ok c then (False, s)
      else
        let (r0, s0) = perform ImportNacl s in
        if raised r0 \<noteq> None then (False, print ''secret update failed'' s0)
        else
          let (r1, s1) = perform GetPublicKey s0 in
          if raised r1 \<noteq> None then (False, print ''secret update failed'' s1)
          else if status r1 \<noteq> 200 then (False, s1)
          else
            let (r2, s2) = perform (Seal (body r1) v) s1 in
            if raised r2 \<noteq> None then (False, print ''secret update failed'' s2)
            else
              let (r3, s3) = perform (PutSecret name (body r2)) s2 in
              if raised r3 \<noteq> None then (False, print ''secret update failed'' s3)
              else (status r3 = 201 \<or> status r3 = 204, s3))"

subsection \<open>AutoLogin: log, shot, save\_cookie\<close>

definition log :: "string \<Rightarrow> level \<Rightarrow> state \<Rightarrow> state" where
  "log m lv s = s\<lparr>logs := logs s @ [(lv, m)], stdout := stdout s @ [m]\<rparr>"

definition shot :: "string \<Rightarrow> state \<Rightarrow> string \<times> state" where
  "shot name s =
     (let k = shot_no s + 1;
          f = pad2 k @ ''_'' @ name @ ''.png'';
          (r, s1) = perform (Screenshot f) (s\<lparr>shot_no := k\<rparr>)
      in if raised r = None
         then (f, s1\<lparr>shots := shots s1 @ [f], files := files s1 @ [f]\<rparr>)
         else (f, s1))"

definition save_cookie :: "config \<Rightarrow> string option \<Rightarrow> state \<Rightarrow> state" where
  "save_cookie c v s =
     (if \<not> truthy v then s
      else
        let w = the v;
            s1 = log ''new cookie'' SUCCESS s;
            (ok, s2) = update c ''GH_SESSION'' w s1
        in if ok then send c CookieUpdated (log ''GH_SESSION updated'' SUCCESS s2)
           else log ''cookie sent through Telegram'' SUCCESS (send c (NewCookie w) s2))"

subsection \<open>The clock only moves forward\<close>

text \<open>These facts carry the termination proofs of the three polling loops.\<close>

lemma clock_perform: "clock s \<le> clock (snd (perform a s))"
  by (simp add: perform_def split: list.splits)

lemma clock_sleep: "clock s + 1000 * k \<le> clock (sleep k s)"
  using clock_perform [of s "Sleep k"] by (simp add: sleep_def Let_def)

lemma clock_log: "clock (log m lv s) = clock s"
  by (simp add: log_def)

lemma clock_send: "clock s \<le> clock (send c m s)"
  using clock_perform [of s "SendMessage m"] by (simp add: send_def)

lemma clock_photo: "clock s \<le> clock (photo c p cap s)"
  using clock_perform [of s "SendPhoto p (take 1024 cap)"] by (simp add: photo_def)

lemma clock_shot: "clock s \<le> clock (snd (shot name s))"
proof -
  let ?s0 = "s\<lparr>shot_no := shot_no s + 1\<rparr>"
  let ?f = "pad2 (shot_no s + 1) @ ''_'' @ name @ ''.png''"
  have "clock ?s0 \<le> clock (snd (perform (Screenshot ?f) ?s0))" by (rule clock_perform)
  then show ?thesis by (auto simp: shot_def Let_def split: prod.splits)
qed

subsection \<open>Telegram: flush\_updates and wait\_code\<close>

text \<open>
  The Telegram server keeps the updates not yet confirmed.  \<open>getUpdates\<close> answers with
  the queued updates whose id is at least the offset of the request (all of them when the
  request has no offset) and forgets the ones below it; the request can also raise, or be
  answered with \<open>ok\<close> false.
\<close>

definition get_updates :: "nat \<Rightarrow> int option \<Rightarrow> state \<Rightarrow> (string + bool \<times> update list) \<times> state" where
  "get_updates t off s =
     (let (r, s1) = perform (GetUpdates t off) s
      in case raised r of
           Some e \<Rightarrow> (Inl e, s1)
         | None \<Rightarrow>
             if \<not> api_ok r then (Inr (False, []), s1)
             else
               let served = (case off of None \<Rightarrow> inbox s1
                             | Some k \<Rightarrow> filter (\<lambda>u. k \<le> update_id u) (inbox s1))
               in (Inr (True, served), s1\<lparr>inbox := served\<rparr>))"

definition flush_updates :: "config \<Rightarrow> state \<Rightarrow> int \<times> state" where
  "flush_updates c s =
     (if \<not> tg_ok c then (0, s)
      else case get_updates 0 None s of
             (Inl e, s1) \<Rightarrow> (0, s1)
           | (Inr (ok, res), s1) \<Rightarrow>
               (if ok \<and> res \<noteq> [] then update_id (last res) + 1 else 0, s1))"

text \<open>
  \<open>str(chat.get("id"))\<close> and the text of an update; an update without message has
  the sender \<open>str(None)\<close> and the empty text.  \<open>str(self.chat_id)\<close> likewise.
\<close>

definition sender :: "update \<Rightarrow> string" where
  "sender u = (case message u of None \<Rightarrow> ''None'' | Some m \<Rightarrow> str_int (chat_id m))"

definition text_of :: "update \<Rightarrow> string" where
  "text_of u =
     (case message u of None \<Rightarrow> []
      | Some m \<Rightarrow> (case msg_text m of None \<Rightarrow> [] | Some t \<Rightarrow> t))"

definition chat_id_str :: "config \<Rightarrow> string" where
  "chat_id_str c = (case tg_chat_id c of None \<Rightarrow> ''None'' | Some x \<Rightarrow> x)"

text \<open>The \<open>for upd in data.get("result", [])\<close> loop: the code found, and the offset.\<close>

fun scan_updates :: "string \<Rightarrow> int \<Rightarrow> update list \<Rightarrow> string option \<times> int" where
  "scan_updates cid offset [] = (None, offset)"
| "scan_updates cid offset (upd # rest) =
     (if sender upd \<noteq> cid then scan_updates cid (update_id upd + 1) rest
      else case pattern_match (strip (text_of upd)) of
             Some code \<Rightarrow> (Some code, update_id upd + 1)
           | None \<Rightarrow> scan_updates cid (update_id upd + 1) rest)"

lemma clock_get_updates: "clock s \<le> clock (snd (get_updates t off s))"
  using clock_perform [of s "GetUpdates t off"]
  by (auto simp: get_updates_def Let_def split: prod.splits option.splits)

text \<open>The \<open>while time.time() < deadline\<close> loop of \<open>wait_code\<close>.\<close>

function wait_code_loop :: "string \<Rightarrow> nat \<Rightarrow> int \<Rightarrow> state \<Rightarrow> string option \<times> state" where
  "wait_code_loop cid deadline offset s =
     (if clock s < deadline then
        (case get_updates 20 (Some offset) s of
           (Inl e, s1) \<Rightarrow> wait_code_loop cid deadline offset (sleep 2 s1)
         | (Inr (ok, res), s1) \<Rightarrow>
             if \<not> ok then wait_code_loop cid deadline offset (sleep 2 s1)
             else (case scan_updates cid offset res of
                     (Some code, off) \<Rightarrow> (Some code, s1)
                   | (None, off) \<Rightarrow> wait_code_loop cid deadline off (sleep 2 s1)))
      else (None, s))"
  by pat_completeness auto
termination
proof (relation "measure (\<lambda>(cid, deadline, offset, s). deadline - clock s)")
  show "wf (measure (\<lambda>(cid, deadline, offset, s). deadline - clock s))" by simp
next
  fix cid :: string and deadline offset s x1 s1
  assume "clock s < deadline" "(x1, s1) = get_updates 20 (Some offset) s"
  then show "((cid, deadline, offset, sleep 2 s1), cid, deadline, offset, s)
      \<in> measure (\<lambda>(cid, deadline, offset, s). deadline - clock s)"
    using clock_get_updates [of s 20 "Some offset"] clock_sleep [of s1 2]
    by (cases "get_updates 20 (Some offset) s") auto
next
  fix cid :: string and deadline offset s x1 s1
  assume "clock s < deadline" "(x1, s1) = get_updates 20 (Some offset) s"
  then show "((cid, deadline, offset, sleep 2 s1), cid, deadline, offset, s)
      \<in> measure (\<lambda>(cid, deadline, offset, s). deadline - clock s)"
    using clock_get_updates [of s 20 "Some offset"] clock_sleep [of s1 2]
    by (cases "get_updates 20 (Some offset) s") auto
next
  fix cid :: string and deadline offset s x1 s1 and off :: int
  assume "clock s < deadline" "(x1, s1) = get_updates 20 (Some offset) s"
  then show "((cid, deadline, off, sleep 2 s1), cid, deadline, offset, s)
      \<in> measure (\<lambda>(cid, deadline, offset, s). deadline - clock s)"
    using clock_get_updates [of s 20 "Some offset"] clock_sleep [of s1 2]
    by (cases "get_updates 20 (Some offset) s") auto
qed

declare wait_code_loop.simps [simp del]

definition wait_code :: "config \<Rightarrow> nat \<Rightarrow> state \<Rightarrow> string option \<times> state" where
  "wait_code c timeout s =
     (if \<not> tg_ok c then (None, s)
      else
        let (offset, s1) = flush_updates c s;
            deadline = clock s1 + 1000 * timeout
        in wait_code_loop (chat_id_str c) deadline offset s1)"

subsection \<open>Constants of the script\<close>

definition CLAW_CLOUD_URL :: string where
  "CLAW_CLOUD_URL = ''https://ap-northeast-1.run.claw.cloud''"

definition SIGNIN_URL :: string where
  "SIGNIN_URL = CLAW_CLOUD_URL @ ''/signin''"

definition DEVICE_VERIFY_WAIT :: nat where
  "DEVICE_VERIFY_WAIT = 30"

definition TWO_FACTOR_WAIT :: nat where
  "TWO_FACTOR_WAIT = 120"

text \<open>
  The selector lists.  A button label that the source writes in Chinese stands here as
  its meaning between square brackets.
\<close>

definition continue_buttons :: "string list" where
  \<open>continue_buttons =
     [''button:has-text("Continue")'', ''a:has-text("Continue")'',
      ''button:has-text("[next step]")'', ''button:has-text("Next")'',
      ''button[type="submit"]'', ''input[type="submit"]'',
      ''button.primary'', ''button.btn-primary'']\<close>

definition force_continue_buttons :: "string list" where
  \<open>force_continue_buttons =
     [''button:has-text("Continue")'', ''a:has-text("Continue")'',
      ''button:has-text("[next step]")'', ''button:has-text("Next")'',
      ''button[type="submit"]'', ''input[type="submit"]'',
      ''button'', ''a'']\<close>

definition otp_selectors :: "string list" where
  \<open>otp_selectors =
     [''input[autocomplete="one-time-code"]'', ''input[name="app_otp"]'',
      ''input[name="otp"]'', ''input#app_totp'', ''input#otp'',
      ''input[inputmode="numeric"]'']\<close>

definition verify_btns :: "string list" where
  \<open>verify_btns =
     [''button:has-text("Verify")'', ''button[type="submit"]'', ''input[type="submit"]'']\<close>

definition submit_selectors :: "string list" where
  \<open>submit_selectors =
     [''input[type="submit"]'', ''button[type="submit"]'',
      ''button:has-text("Sign in")'', ''button:has-text("[log in]")'']\<close>

definition authorize_selectors :: "string list" where
  \<open>authorize_selectors =
     [''button[name="authorize"]'', ''button:has-text("Authorize")'',
      ''button:has-text("[authorize]")'', ''button[type="submit"]'',
      ''button[data-ga-click*="authorize"]'', ''[data-octo-click="oauth_authorize"]'',
      ''button.btn-primary'', ''button.primary'']\<close>

text \<open>The nine selectors of the OAuth loop, and the twelve of step 2 of \<open>run\<close>.\<close>

definition github_selectors :: "string list" where
  \<open>github_selectors =
     [''button:has-text("GitHub")'', ''button:has-text("Github")'',
      ''button:has-text("github")'', ''a:has-text("GitHub")'', ''a:has-text("Github")'',
      ''a:has-text("github")'', ''[data-provider="github"]'',
      ''button[data-provider="github"]'', ''a[data-provider="github"]'']\<close>

definition github_selectors_run :: "string list" where
  \<open>github_selectors_run =
     github_selectors @
     [''[href*="github.com/login/oauth"]'', ''button:has-text("Continue with GitHub")'',
      ''button:has-text("Continue with Github")'']\<close>

subsection \<open>AutoLogin: find\_and\_click and get\_session\<close>

fun find_and_click :: "string list \<Rightarrow> string \<Rightarrow> nat \<Rightarrow> state \<Rightarrow> bool \<times> state" where
  "find_and_click [] desc timeout s = (False, s)"
| "find_and_click (sel # selectors) desc timeout s =
     (let (r, s1) = perform (IsVisible sel 0 timeout) s
      in if raised r \<noteq> None
         then find_and_click selectors desc timeout (log (''click failed: '' @ sel) INFO s1)
         else if visible r then
           (let (r2, s2) = perform (Click sel 0) s1
            in if raised r2 \<noteq> None
               then find_and_click selectors desc timeout (log (''click failed: '' @ sel) INFO s2)
               else (True, log (''clicked: '' @ desc) SUCCESS s2))
         else find_and_click selectors desc timeout s1)"

fun find_session :: "cookie list \<Rightarrow> string option" where
  "find_session [] = None"
| "find_session (c # cs) =
     (if c_name c = ''user_session''
         \<and> contains ''github'' (case c_domain c of None \<Rightarrow> [] | Some d \<Rightarrow> d)
      then Some (c_value c) else find_session cs)"

definition get_session :: "state \<Rightarrow> string option \<times> state" where
  "get_session s =
     (let (r, s1) = perform Cookies s
      in if raised r \<noteq> None then (None, s1) else (find_session (jar r), s1))"

lemma clock_find_and_click: "clock s \<le> clock (snd (find_and_click sels desc t s))"
proof (induction sels arbitrary: s)
  case Nil
  then show ?case by simp
next
  case (Cons sel sels)
  obtain r s1 where p1: "perform (IsVisible sel 0 t) s = (r, s1)"
    by (cases "perform (IsVisible sel 0 t) s")
  obtain r2 s2 where p2: "perform (Click sel 0) s1 = (r2, s2)"
    by (cases "perform (Click sel 0) s1")
  have c1: "clock s \<le> clock s1" using clock_perform [of s "IsVisible sel 0 t"] p1 by simp
  have c2: "clock s1 \<le> clock s2" using clock_perform [of s1 "Click sel 0"] p2 by simp
  have a: "clock s1 \<le> clock (snd (find_and_click sels desc t s1))" by (rule Cons.IH)
  have b: "clock s1 \<le> clock (snd (find_and_click sels desc t (log (''click failed: '' @ sel) INFO s1)))"
    using Cons.IH [of "log (''click failed: '' @ sel) INFO s1"] by (simp add: clock_log)
  have d: "clock s2 \<le> clock (snd (find_and_click sels desc t (log (''click failed: '' @ sel) INFO s2)))"
    using Cons.IH [of "log (''click failed: '' @ sel) INFO s2"] by (simp add: clock_log)
  show ?case using p1 p2 c1 c2 a b d by (simp add: clock_log)
qed

subsection \<open>AutoLogin: wait\_device\<close>

text \<open>
  The sweep after the time-out.  For each selector the elements are listed and tried in
  turn; a click that goes through ends the work on that selector, a click that raises
  moves on to the next element, and any other exception moves on to the next selector.
\<close>

fun force_elements :: "string \<Rightarrow> nat list \<Rightarrow> state \<Rightarrow> state" where
  "force_elements btn [] s = s"
| "force_elements btn (i # rest) s =
     (let (r, s1) = perform (IsVisible btn i 1000) s
      in if raised r \<noteq> None then s1
         else if visible r then
           (let (r2, s2) = perform (Click btn i) s1
            in if raised r2 \<noteq> None then force_elements btn rest s2
               else sleep 2 (log ''forced a click'' SUCCESS s2))
         else force_elements btn rest s1)"

fun force_continue :: "string list \<Rightarrow> state \<Rightarrow> state" where
  "force_continue [] s = s"
| "force_continue (btn # btns) s =
     (let (r, s1) = perform (LocatorAll btn) s
      in force_continue btns
           (if raised r \<noteq> None then s1 else force_elements btn [0..<count r] s1))"

text \<open>The code after the loop: the sweep, then the last look at the URL.\<close>

definition wait_device_timeout :: "config \<Rightarrow> state \<Rightarrow> (string + bool) \<times> state" where
  "wait_device_timeout c s =
     (let s1 = log ''device verification timed out, forcing'' WARN s;
          s2 = force_continue force_continue_buttons s1
      in if \<not> contains ''verified-device'' (page_url s2)
            \<and> \<not> contains ''device-verification'' (page_url s2)
         then (Inr True,
               send c DeviceApprovedForced (log ''device verification passed after forced click'' SUCCESS s2))
         else (Inr False, send c DeviceTimeout (log ''device verification timeout'' ERROR s2)))"

text \<open>
  One pass through the loop body up to the status line: \<open>Inr (Some b)\<close> is
  \<open>return b\<close>, \<open>Inl e\<close> the exception of the unguarded \<open>wait_for_load_state\<close>, and
  \<open>Inr None\<close> falls through to the rest of the body.
\<close>

definition wait_device_poll :: "config \<Rightarrow> state \<Rightarrow> (string + bool option) \<times> state" where
  "wait_device_poll c s =
     (let url = page_url s
      in if \<not> contains ''verified-device'' url \<and> \<not> contains ''device-verification'' url
         then (Inr (Some True),
               send c DeviceApproved (log ''device verification passed'' SUCCESS s))
         else
           let (clicked, s1) = find_and_click continue_buttons ''continue button'' 3000 s
           in if clicked then
                (let s2 = sleep 2 s1;
                     (r, s3) = perform (WaitForLoadState networkidle 10000) s2
                 in case raised r of
                      Some e \<Rightarrow> (Inl e, s3)
                    | None \<Rightarrow>
                        if \<not> contains ''verified-device'' (page_url s3)
                           \<and> \<not> contains ''device-verification'' (page_url s3)
                        then (Inr (Some True),
                              log ''device verification passed after continue'' SUCCESS s3)
                        else (Inr None, s3))
              else (Inr None, s1))"

lemma clock_wait_device_poll: "clock s \<le> clock (snd (wait_device_poll c s))"
proof -
  obtain clicked s1 where f: "find_and_click continue_buttons ''continue button'' 3000 s = (clicked, s1)"
    by (cases "find_and_click continue_buttons ''continue button'' 3000 s")
  obtain r s3 where p: "perform (WaitForLoadState networkidle 10000) (sleep 2 s1) = (r, s3)"
    by (cases "perform (WaitForLoadState networkidle 10000) (sleep 2 s1)")
  have c1: "clock s \<le> clock s1"
    using clock_find_and_click [of s continue_buttons "''continue button''" 3000] f by simp
  have c3: "clock s1 \<le> clock s3"
    using clock_sleep [of s1 2] clock_perform [of "sleep 2 s1" "WaitForLoadState networkidle 10000"] p
    by simp
  have c0: "clock s \<le> clock (send c DeviceApproved (log ''device verification passed'' SUCCESS s))"
    using clock_send [of "log ''device verification passed'' SUCCESS s" c DeviceApproved]
    by (simp add: clock_log)
  show ?thesis
    using f p c0 c1 c3 by (simp add: wait_device_poll_def Let_def clock_log split: option.splits)
qed

function wait_device_loop ::
    "config \<Rightarrow> nat \<Rightarrow> nat \<Rightarrow> nat \<Rightarrow> state \<Rightarrow> (string + bool) \<times> state" where
  "wait_device_loop c start_time deadline last_log_time s =
     (if clock s < deadline then
        (case wait_device_poll c s of
           (Inl e, s1) \<Rightarrow> (Inl e, s1)
         | (Inr (Some b), s1) \<Rightarrow> (Inr b, s1)
         | (Inr None, s1) \<Rightarrow>
             let elapsed = (clock s1 - start_time) div 1000;
                 status_due = (elapsed mod 5 = 0 \<and> elapsed \<noteq> last_log_time);
                 s2 = (if status_due then log ''waiting for device verification'' INFO s1 else s1)
             in wait_device_loop c start_time deadline
                  (if status_due then elapsed else last_log_time) (sleep 1 s2))
      else wait_device_timeout c s)"
  by pat_completeness auto
termination
proof (relation "measure (\<lambda>(c, start_time, deadline, last_log_time, s). deadline - clock s)")
  show "wf (measure (\<lambda>(c, start_time, deadline, last_log_time, s). deadline - clock s))" by simp
next
  fix c :: config and start_time deadline last_log_time :: nat and s x s1 y z elapsed due s2
  assume a: "clock s < deadline" "(x, s1) = wait_device_poll c s"
    and s2: "s2 = (if due then log ''waiting for device verification'' INFO s1 else s1)"
  have "clock s \<le> clock s1" using clock_wait_device_poll [of s c] a(2) [symmetric] by simp
  moreover have "clock s2 = clock s1" using s2 by (simp add: clock_log)
  ultimately have "clock s < clock (sleep 1 s2)" using clock_sleep [of s2 1] by simp
  then show "((c, start_time, deadline, if due then elapsed else last_log_time, sleep 1 s2),
       c, start_time, deadline, last_log_time, s)
      \<in> measure (\<lambda>(c, start_time, deadline, last_log_time, s). deadline - clock s)"
    using a(1) by simp
qed

declare wait_device_loop.simps [simp del]

definition wait_device :: "config \<Rightarrow> state \<Rightarrow> (string + bool) \<times> state" where
  "wait_device c s =
     (let s1 = log ''device verification needed'' WARN s;
          (f, s2) = shot ''device verification'' s1;
          s3 = send c DeviceNeeded s2;
          s4 = (if f \<noteq> [] then photo c f ''device verification page'' s3 else s3);
          start_time = clock s4;
          deadline = start_time + 1000 * DEVICE_VERIFY_WAIT
      in wait_device_loop c start_time deadline 0 s4)"

text \<open>
  The state in which the loop starts, and the states in which the loop tests its guard,
  in the order of the run: the recursion is that of \<open>wait_device_loop\<close>.
\<close>

definition wait_device_begin :: "config \<Rightarrow> state \<Rightarrow> state" where
  "wait_device_begin c s =
     (let s1 = log ''device verification needed'' WARN s;
          (f, s2) = shot ''device verification'' s1;
          s3 = send c DeviceNeeded s2
      in if f \<noteq> [] then photo c f ''device verification page'' s3 else s3)"

function wait_device_states :: "config \<Rightarrow> nat \<Rightarrow> nat \<Rightarrow> nat \<Rightarrow> state \<Rightarrow> state list" where
  "wait_device_states c start_time deadline last_log_time s =
     (if clock s < deadline then
        (case wait_device_poll c s of
           (Inl e, s1) \<Rightarrow> [s]
         | (Inr (Some b), s1) \<Rightarrow> [s]
         | (Inr None, s1) \<Rightarrow>
             let elapsed = (clock s1 - start_time) div 1000;
                 status_due = (elapsed mod 5 = 0 \<and> elapsed \<noteq> last_log_time);
                 s2 = (if status_due then log ''waiting for device verification'' INFO s1 else s1)
             in s # wait_device_states c start_time deadline
                      (if status_due then elapsed else last_log_time) (sleep 1 s2))
      else [s])"
  by pat_completeness auto
termination
proof (relation "measure (\<lambda>(c, start_time, deadline, last_log_time, s). deadline - clock s)")
  show "wf (measure (\<lambda>(c, start_time, deadline, last_log_time, s). deadline - clock s))" by simp
next
  fix c :: config and start_time deadline last_log_time :: nat and s x s1 y z elapsed due s2
  assume a: "clock s < deadline" "(x, s1) = wait_device_poll c s"
    and s2: "s2 = (if due then log ''waiting for device verification'' INFO s1 else s1)"
  have "clock s \<le> clock s1" using clock_wait_device_poll [of s c] a(2) [symmetric] by simp
  moreover have "clock s2 = clock s1" using s2 by (simp add: clock_log)
  ultimately have "clock s < clock (sleep 1 s2)" using clock_sleep [of s2 1] by simp
  then show "((c, start_time, deadline, if due then elapsed else last_log_time, sleep 1 s2),
       c, start_time, deadline, last_log_time, s)
      \<in> measure (\<lambda>(c, start_time, deadline, last_log_time, s). deadline - clock s)"
    using a(1) by simp
qed

declare wait_device_states.simps [simp del]

text \<open>
  The states in which the second and the third test of the URL are made: after the click
  on a continue button (line 326), and after the sweep (line 369).
\<close>

definition after_continue :: "state \<Rightarrow> state" where
  "after_continue s =
     snd (perform (WaitForLoadState networkidle 10000)
            (sleep 2 (snd (find_and_click continue_buttons ''continue button'' 3000 s))))"

definition after_sweep :: "state \<Rightarrow> state" where
  "after_sweep s =
     force_continue force_continue_buttons (log ''device verification timed out, forcing'' WARN s)"

subsection \<open>AutoLogin: the two-factor step\<close>

text \<open>\<open>page.reload\<close> followed by \<open>wait_for_load_state\<close>, inside one \<open>try\<close>.\<close>

definition light_reload :: "state \<Rightarrow> state" where
  "light_reload s =
     (let (r, s1) = perform (Reload 30000) s
      in if raised r \<noteq> None then s1
         else snd (perform (WaitForLoadState domcontentloaded 30000) s1))"

text \<open>The status line with a fresh screenshot, every ten seconds.\<close>

definition mobile_status :: "config \<Rightarrow> nat \<Rightarrow> state \<Rightarrow> state" where
  "mobile_status c elapsed s =
     (let s1 = log ''waiting for GitHub Mobile 2FA'' INFO s;
          (f, s2) = shot (''2FA_mobile_'' @ str_nat elapsed @ ''s'') s1
      in if f \<noteq> [] then photo c f ''GitHub Mobile 2FA page'' s2 else s2)"

lemma clock_light_reload: "clock s \<le> clock (light_reload s)"
proof -
  obtain r s1 where p: "perform (Reload 30000) s = (r, s1)" by (cases "perform (Reload 30000) s")
  have "clock s \<le> clock s1" using clock_perform [of s "Reload 30000"] p by simp
  then show ?thesis
    using p clock_perform [of s1 "WaitForLoadState domcontentloaded 30000"]
    by (simp add: light_reload_def)
qed

lemma clock_mobile_status: "clock s \<le> clock (mobile_status c elapsed s)"
proof -
  let ?s1 = "log ''waiting for GitHub Mobile 2FA'' INFO s"
  obtain f s2 where p: "shot (''2FA_mobile_'' @ str_nat elapsed @ ''s'') ?s1 = (f, s2)"
    by (cases "shot (''2FA_mobile_'' @ str_nat elapsed @ ''s'') ?s1")
  have "clock s \<le> clock s2"
    using clock_shot [of ?s1 "''2FA_mobile_'' @ str_nat elapsed @ ''s''"] p by (simp add: clock_log)
  then show ?thesis
    using p clock_photo [of s2 c f "''GitHub Mobile 2FA page''"]
    by (simp add: mobile_status_def Let_def)
qed

function mobile_2fa_loop :: "config \<Rightarrow> nat \<Rightarrow> nat \<Rightarrow> state \<Rightarrow> bool \<times> state" where
  "mobile_2fa_loop c start_time deadline s =
     (if clock s < deadline then
        (let s1 = sleep 1 s;
             url = page_url s1
         in if \<not> contains ''github.com/sessions/two-factor/'' url
            then (True, send c MobileApproved (log ''GitHub Mobile 2FA passed'' SUCCESS s1))
            else if contains ''github.com/login'' url
            then (False, log ''back on the login page after 2FA'' ERROR s1)
            else
              let elapsed = (clock s1 - start_time) div 1000;
                  s2 = (if elapsed mod 10 = 0 \<and> elapsed \<noteq> 0
                        then mobile_status c elapsed s1 else s1);
                  s3 = (if elapsed mod 30 = 0 \<and> elapsed \<noteq> 0 then light_reload s2 else s2)
              in mobile_2fa_loop c start_time deadline s3)
      else (False, send c MobileTimeout (log ''GitHub Mobile 2FA timeout'' ERROR s)))"
  by pat_completeness auto
termination
proof (relation "measure (\<lambda>(c, start_time, deadline, s). deadline - clock s)")
  show "wf (measure (\<lambda>(c, start_time, deadline, s). deadline - clock s))" by simp
next
  fix c :: config and start_time deadline :: nat and s s1 url elapsed s2 s3
  assume a: "clock s < deadline" "s1 = sleep 1 s"
    and s2: "s2 = (if elapsed mod 10 = 0 \<and> elapsed \<noteq> 0 then mobile_status c elapsed s1 else s1)"
    and s3: "s3 = (if elapsed mod 30 = 0 \<and> elapsed \<noteq> 0 then light_reload s2 else s2)"
  have "clock s < clock s1" using clock_sleep [of s 1] a(2) by simp
  moreover have "clock s1 \<le> clock s2" using s2 clock_mobile_status [of s1 c elapsed] by simp
  moreover have "clock s2 \<le> clock s3" using s3 clock_light_reload [of s2] by simp
  ultimately show "((c, start_time, deadline, s3), c, start_time, deadline, s)
      \<in> measure (\<lambda>(c, start_time, deadline, s). deadline - clock s)"
    using a(1) by simp
qed

declare mobile_2fa_loop.simps [simp del]

definition handle_mobile_2fa :: "config \<Rightarrow> state \<Rightarrow> bool \<times> state" where
  "handle_mobile_2fa c s =
     (let s1 = log ''GitHub Mobile 2FA needed'' WARN s;
          (f, s2) = shot ''2FA_mobile'' s1;
          s3 = send c MobileNeeded s2;
          s4 = (if f \<noteq> [] then photo c f ''GitHub Mobile 2FA page'' s3 else s3);
          start_time = clock s4;
          deadline = start_time + 1000 * TWO_FACTOR_WAIT
      in mobile_2fa_loop c start_time deadline s4)"

text \<open>The \<open>for btn_sel in verify_btns\<close> loop: whether a button was clicked.\<close>

fun click_verify :: "string list \<Rightarrow> state \<Rightarrow> bool \<times> state" where
  "click_verify [] s = (False, s)"
| "click_verify (btn_sel # rest) s =
     (let (r, s1) = perform (IsVisible btn_sel 0 1000) s
      in if raised r \<noteq> None then click_verify rest s1
         else if visible r then
           (let (r2, s2) = perform (Click btn_sel 0) s1
            in if raised r2 \<noteq> None then click_verify rest s2
               else (True, log ''clicked the Verify button'' SUCCESS s2))
         else click_verify rest s1)"

text \<open>
  Submitting the code once a field has been filled: \<open>Inl e\<close> when a call raised (the
  bare \<open>except\<close> of the enclosing loop then goes on with the next selector).
\<close>

definition after_submit :: "config \<Rightarrow> state \<Rightarrow> (string + bool) \<times> state" where
  "after_submit c s =
     (let s1 = sleep 3 s;
          (r, s2) = perform (WaitForLoadState networkidle 30000) s1
      in case raised r of
           Some e \<Rightarrow> (Inl e, s2)
         | None \<Rightarrow>
             let (f, s3) = shot ''2FA code submitted'' s2
             in if \<not> contains ''github.com/sessions/two-factor/'' (page_url s3)
                then (Inr True, send c CodeAccepted (log ''2FA code accepted'' SUCCESS s3))
                else (Inr False, send c CodeWrong (log ''2FA code probably wrong'' ERROR s3)))"

definition submit_code :: "config \<Rightarrow> state \<Rightarrow> (string + bool) \<times> state" where
  "submit_code c s =
     (let s1 = sleep 1 (log ''2FA code filled in'' SUCCESS s);
          (submitted, s2) = click_verify verify_btns s1
      in if submitted then after_submit c s2
         else
           let (r, s3) = perform (Press ''Enter'') s2
           in case raised r of
                Some e \<Rightarrow> (Inl e, s3)
              | None \<Rightarrow> after_submit c (log ''submitted with Enter'' SUCCESS s3))"

text \<open>The \<open>for sel in selectors\<close> loop with the code after it.\<close>

fun fill_code :: "config \<Rightarrow> string \<Rightarrow> string list \<Rightarrow> state \<Rightarrow> bool \<times> state" where
  "fill_code c code [] s =
     (False, send c CodeFieldMissing (log ''no 2FA code field found'' ERROR s))"
| "fill_code c code (sel # rest) s =
     (let (r, s1) = perform (IsVisible sel 0 2000) s
      in if raised r \<noteq> None then fill_code c code rest s1
         else if visible r then
           (let (r2, s2) = perform (Fill sel (Some code)) s1
            in if raised r2 \<noteq> None then fill_code c code rest s2
               else (case submit_code c s2 of
                       (Inl e, s3) \<Rightarrow> fill_code c code rest s3
                     | (Inr b, s3) \<Rightarrow> (b, s3)))
         else fill_code c code rest s1)"

definition handle_code_2fa :: "config \<Rightarrow> state \<Rightarrow> bool \<times> state" where
  "handle_code_2fa c s =
     (let s1 = log ''2FA code needed'' WARN s;
          (f, s2) = shot ''2FA_code'' s1;
          s3 = send c CodeNeeded s2;
          s4 = (if f \<noteq> [] then photo c f ''2FA code page'' s3 else s3);
          s5 = log ''waiting for the 2FA code'' WARN s4;
          (code, s6) = wait_code c TWO_FACTOR_WAIT s5
      in if \<not> truthy code
         then (False, send c CodeTimeout (log ''timed out waiting for the 2FA code'' ERROR s6))
         else fill_code c (the code) otp_selectors
                (send c CodeReceived (log ''2FA code received'' SUCCESS s6)))"

definition detect_and_handle_2fa :: "config \<Rightarrow> state \<Rightarrow> bool \<times> state" where
  "detect_and_handle_2fa c s =
     (let url = page_url s;
          s1 = log ''checking the 2FA state'' INFO s
      in if \<not> contains ''two-factor'' url
         then (True, log ''no 2FA required, step skipped'' SUCCESS s1)
         else
           let s2 = log ''2FA required'' WARN s1;
               (f, s3) = shot ''2FA detected'' s2
           in if contains ''two-factor/mobile'' url then handle_mobile_2fa c s3
              else handle_code_2fa c s3)"

subsection \<open>AutoLogin: login\_github\<close>

text \<open>The loop over \<open>submit_selectors\<close>, left at the first click that goes through.\<close>

fun click_submit :: "string list \<Rightarrow> state \<Rightarrow> state" where
  "click_submit [] s = s"
| "click_submit (sel # rest) s =
     (let (r, s1) = perform (IsVisible sel 0 2000) s
      in if raised r \<noteq> None then click_submit rest s1
         else if visible r then
           (let (r2, s2) = perform (Click sel 0) s1
            in if raised r2 \<noteq> None then click_submit rest s2
               else log ''clicked the sign-in button'' SUCCESS s2)
         else click_submit rest s1)"

text \<open>The loop over the first ten controls of the page when it is still on verification.\<close>

definition all_buttons :: string where
  \<open>all_buttons = ''button, a, input[type="submit"]''\<close>

fun click_any :: "nat list \<Rightarrow> state \<Rightarrow> state" where
  "click_any [] s = s"
| "click_any (i # rest) s =
     (let (r, s1) = perform (IsVisible all_buttons i 1000) s
      in if raised r \<noteq> None then click_any rest s1
         else if visible r then
           (let (r2, s2) = perform (Click all_buttons i) s1
            in if raised r2 \<noteq> None then click_any rest s2
               else sleep 2 (log ''clicked a continue button'' INFO s2))
         else click_any rest s1)"

text \<open>
  Part 1 of the function, device verification: \<open>Inr True\<close> goes on to the two-factor
  step, \<open>Inr False\<close> is \<open>return False\<close>, \<open>Inl e\<close> an exception that leaves the function.
\<close>

definition login_device :: "config \<Rightarrow> string \<Rightarrow> state \<Rightarrow> (string + bool) \<times> state" where
  "login_device c url s =
     (if contains ''verified-device'' url \<or> contains ''device-verification'' url then
        (case wait_device c s of
           (Inl e, s1) \<Rightarrow> (Inl e, s1)
         | (Inr False, s1) \<Rightarrow> (Inr False, s1)
         | (Inr True, s1) \<Rightarrow>
             let s2 = sleep 2 s1;
                 s3 = snd (perform (WaitForLoadState networkidle 15000) s2);
                 (f, s4) = shot ''after verification'' s3;
                 url2 = page_url s4
             in if contains ''verified-device'' url2 \<or> contains ''device-verification'' url2 then
                  (let s5 = log ''still on the verification page, forcing'' WARN s4;
                       (r, s6) = perform (LocatorCount all_buttons) s5
                   in case raised r of
                        Some e \<Rightarrow> (Inl e, s6)
                      | None \<Rightarrow> (Inr True, click_any [0..<min (count r) 10] s6))
                else (Inr True, s4))
      else (Inr True, s))"

text \<open>The check for a flash error that ends the function.\<close>

definition flash_error :: "state \<Rightarrow> bool \<times> state" where
  "flash_error s =
     (let (r, s1) = perform (IsVisible ''.flash-error'' 0 2000) s
      in if raised r \<noteq> None then (True, s1)
         else if visible r then
           (let (r2, s2) = perform (InnerText ''.flash-error'') s1
            in if raised r2 \<noteq> None then (True, s2)
               else (False, log (''error: '' @ body r2) ERROR s2))
         else (True, s1))"

definition login_github :: "config \<Rightarrow> state \<Rightarrow> (string + bool) \<times> state" where
  \<open>login_github c s =
     (let s1 = log ''logging in to GitHub'' STEP s;
          (f1, s2) = shot ''github login page'' s1;
          (r3, s3) = perform (Fill ''input[name="login"]'' (username c)) s2
      in if raised r3 \<noteq> None then (Inr False, log ''input failed'' ERROR s3)
         else
           let (r4, s4) = perform (Fill ''input[name="password"]'' (password c)) s3
           in if raised r4 \<noteq> None then (Inr False, log ''input failed'' ERROR s4)
              else
                let s5 = log ''credentials entered'' INFO s4;
                    (f2, s6) = shot ''github filled in'' s5;
                    s7 = click_submit submit_selectors s6;
                    s8 = sleep 3 s7;
                    s9 = snd (perform (WaitForLoadState networkidle 30000) s8);
                    (f3, s10) = shot ''github after login'' s9;
                    url = page_url s10;
                    s11 = log ''current page'' INFO s10
                in case login_device c url s11 of
                     (Inl e, s12) \<Rightarrow> (Inl e, s12)
                   | (Inr False, s12) \<Rightarrow> (Inr False, s12)
                   | (Inr True, s12) \<Rightarrow>
                       (case detect_and_handle_2fa c s12 of
                          (False, s13) \<Rightarrow> (Inr False, s13)
                        | (True, s13) \<Rightarrow>
                            (case flash_error s13 of (b, s14) \<Rightarrow> (Inr b, s14))))\<close>

subsection \<open>AutoLogin: complete\_oauth\_flow\<close>

text \<open>
  The three branches on the URL inside one iteration.  The result is true when the
  branch ends in \<open>continue\<close>, false when the iteration goes on to its last two lines.
\<close>

definition oauth_branch :: "nat \<Rightarrow> string \<Rightarrow> state \<Rightarrow> bool \<times> state" where
  "oauth_branch attempt url s =
     (if contains ''github.com/login/oauth/authorize'' url then
        (let s1 = (if attempt mod 5 = 0
                   then log ''on the GitHub OAuth authorization page'' INFO
                          (snd (shot (''oauth_authorize_'' @ str_nat attempt) s))
                   else s);
             (clicked, s2) = find_and_click authorize_selectors ''authorize button'' 3000 s1
         in if clicked
            then (True, snd (perform (WaitForLoadState networkidle 20000) (sleep 3 s2)))
            else (False, s2))
      else if contains ''github.com'' url \<and> \<not> contains ''login'' url \<and> \<not> contains ''oauth'' url then
        (let s1 = (if attempt mod 5 = 0
                   then log ''on a GitHub page, going to ClawCloud'' INFO s else s);
             (r, s2) = perform (Goto SIGNIN_URL 30000) s1
         in if raised r \<noteq> None then (False, s2)
            else (True, sleep 2 (snd (perform (WaitForLoadState networkidle 15000) s2))))
      else if contains ''claw.cloud'' url \<and> contains ''signin'' (lower url) then
        (let s1 = (if attempt mod 5 = 0
                   then log ''back on the ClawCloud sign-in page, clicking GitHub again'' INFO
                          (snd (shot (''clawcloud_signin_'' @ str_nat attempt) s))
                   else s);
             (clicked, s2) = find_and_click github_selectors ''GitHub button'' 3000 s1
         in if clicked
            then (True, snd (perform (WaitForLoadState networkidle 20000) (sleep 3 s2)))
            else (False, s2))
      else (False, s))"

text \<open>The \<open>for attempt in range(max_attempts)\<close> loop and the two lines after it.\<close>

fun oauth_loop :: "nat list \<Rightarrow> state \<Rightarrow> bool \<times> state" where
  "oauth_loop [] s = (False, log ''OAuth flow timeout'' ERROR s)"
| "oauth_loop (attempt # rest) s =
     (let url = page_url s
      in if contains ''claw.cloud'' url \<and> \<not> contains ''signin'' (lower url)
         then (True, log ''on a ClawCloud page'' SUCCESS s)
         else (case oauth_branch attempt url s of
                 (True, s1) \<Rightarrow> oauth_loop rest s1
               | (False, s1) \<Rightarrow>
                   let s2 = sleep 1 s1;
                       s3 = (if attempt mod 5 = 0
                             then log ''waiting for the OAuth flow'' INFO s2 else s2)
                   in oauth_loop rest s3))"

definition max_attempts :: nat where
  "max_attempts = 30"

definition complete_oauth_flow :: "state \<Rightarrow> bool \<times> state" where
  "complete_oauth_flow s =
     oauth_loop [0..<max_attempts] (log ''handling the OAuth flow'' STEP s)"

subsection \<open>AutoLogin: keepalive and notify\<close>

definition urls_to_visit :: "(string \<times> string) list" where
  "urls_to_visit =
     [(CLAW_CLOUD_URL @ ''/'', ''console''), (CLAW_CLOUD_URL @ ''/apps'', ''apps''),
      (CLAW_CLOUD_URL @ ''/account'', ''account'')]"

fun visit :: "(string \<times> string) list \<Rightarrow> state \<Rightarrow> state" where
  "visit [] s = s"
| "visit ((url, name) # rest) s =
     (let (r, s1) = perform (Goto url 30000) s
      in visit rest
           (if raised r \<noteq> None then log (''visit failed: '' @ name) WARN s1
            else sleep 2 (log (''visited: '' @ name) SUCCESS
                            (snd (perform (WaitForLoadState networkidle 15000) s1)))))"

definition keepalive :: "state \<Rightarrow> state" where
  "keepalive s =
     (let s1 = log ''keepalive'' STEP s;
          s2 = visit urls_to_visit s1;
          (r, s3) = perform (Goto (CLAW_CLOUD_URL @ ''/'') 30000) s2
      in if raised r \<noteq> None then snd (shot ''done'' s3)
         else
           let (r4, s4) = perform (WaitForLoadState networkidle 15000) s3
           in if raised r4 \<noteq> None then snd (shot ''done'' s4)
              else snd (shot ''done'' (sleep 2 s4)))"

text \<open>\<open>xs[-k:]\<close> of Python.\<close>

definition last_n :: "nat \<Rightarrow> 'a list \<Rightarrow> 'a list" where
  "last_n k xs = drop (length xs - k) xs"

fun photos :: "config \<Rightarrow> string list \<Rightarrow> state \<Rightarrow> state" where
  "photos c [] s = s"
| "photos c (p # ps) s = photos c ps (photo c p p s)"

definition notify :: "config \<Rightarrow> bool \<Rightarrow> string \<Rightarrow> state \<Rightarrow> state" where
  "notify c ok err s =
     (if \<not> tg_ok c then s
      else
        let s1 = send c (Report ok (username c) err (last_n 10 (logs s))) s
        in if shots s1 \<noteq> [] then
             (if \<not> ok then photos c (last_n 3 (shots s1)) s1
              else photo c (last (shots s1)) ''done'' s1)
           else s1)"

subsection \<open>AutoLogin: run\<close>

text \<open>
  How the process ends: \<open>run\<close> returns, \<open>sys.exit\<close> is called, or an exception reaches
  the top of the script.  The exit status of the process follows.
\<close>

datatype ending = Returned | SysExit nat | Uncaught string

fun exit_status :: "ending \<Rightarrow> nat" where
  "exit_status Returned = 0"
| "exit_status (SysExit k) = k"
| "exit_status (Uncaught e) = 1"

text \<open>Steps 6 and 7 with the final report (lines 890-904).\<close>

definition run_finish :: "config \<Rightarrow> state \<Rightarrow> ending \<times> state" where
  "run_finish c s =
     (let s1 = keepalive s;
          s2 = log ''step 6: update the cookie'' STEP s1;
          (new, s3) = get_session s2;
          s4 = (if truthy new then save_cookie c new s3
                else log ''no new cookie obtained'' WARN s3);
          s5 = notify c True [] s4
      in (Returned, print ''success'' s5))"

text \<open>Step 5, the check of the final URL.\<close>

definition run_verify :: "config \<Rightarrow> state \<Rightarrow> ending \<times> state" where
  "run_verify c s =
     (let s1 = log ''step 5: verify'' STEP s
      in if \<not> contains ''claw.cloud'' (page_url s1) \<or> contains ''signin'' (lower (page_url s1))
         then (SysExit 1, notify c False ''verification failed'' (snd (shot ''verification failed'' s1)))
         else run_finish c s1)"

text \<open>Step 4, the OAuth flow.\<close>

definition run_oauth :: "config \<Rightarrow> state \<Rightarrow> ending \<times> state" where
  "run_oauth c s =
     (case complete_oauth_flow (log ''step 4: complete the OAuth flow'' STEP s) of
        (False, s1) \<Rightarrow>
          (SysExit 1, notify c False ''OAuth flow failed'' (snd (shot ''OAuth flow failed'' s1)))
      | (True, s1) \<Rightarrow> run_verify c (snd (shot ''flow complete'' s1)))"

text \<open>
  Steps 2 and 3, the click on the GitHub button and the login at GitHub:
  \<open>Inr (Some e)\<close> when the run ends here with \<open>sys.exit\<close>, \<open>Inr None\<close> when it goes on
  to step 4, \<open>Inl x\<close> when \<open>login_github\<close> raised.
\<close>

definition run_login :: "config \<Rightarrow> state \<Rightarrow> (string + ending option) \<times> state" where
  "run_login c s =
     (let s1 = log ''step 2: click GitHub'' STEP s;
          (clicked, s2) = find_and_click github_selectors_run ''GitHub button'' 3000 s1
      in if \<not> clicked
         then (Inr (Some (SysExit 1)),
               notify c False ''GitHub button not found''
                 (snd (shot ''button not found'' (log ''GitHub button not found'' ERROR s2))))
         else
           let s3 = sleep 3 s2;
               s4 = snd (perform (WaitForLoadState networkidle 30000) s3);
               (f, s5) = shot ''after click'' s4;
               url = page_url s5;
               s6 = log ''current page'' INFO s5;
               s7 = log ''step 3: GitHub authentication'' STEP s6
           in if contains ''github.com/login'' url \<or> contains ''github.com/session'' url then
                (case login_github c s7 of
                   (Inl e, s8) \<Rightarrow> (Inl e, s8)
                 | (Inr False, s8) \<Rightarrow>
                     (Inr (Some (SysExit 1)),
                      notify c False ''GitHub login failed'' (snd (shot ''login failed'' s8)))
                 | (Inr True, s8) \<Rightarrow> (Inr None, s8))
              else (Inr None, s7))"

text \<open>The branch taken when the landing page is not the sign-in page (lines 821-830).\<close>

definition run_logged_in :: "config \<Rightarrow> state \<Rightarrow> ending \<times> state" where
  "run_logged_in c s =
     (let s1 = keepalive (log ''already logged in'' SUCCESS s);
          (new, s2) = get_session s1;
          s3 = (if truthy new then save_cookie c new s2 else s2);
          s4 = notify c True [] s3
      in (Returned, print ''success'' s4))"

text \<open>\<open>self.gh_session\<close>: the variable \<open>GH_SESSION\<close>, stripped.\<close>

definition session_token :: "config \<Rightarrow> string" where
  "session_token c = strip (gh_session c)"

definition session_cookies :: "config \<Rightarrow> cookie list" where
  "session_cookies c =
     [\<lparr>c_name = ''user_session'', c_domain = Some ''github.com'', c_value = session_token c\<rparr>,
      \<lparr>c_name = ''logged_in'', c_domain = Some ''github.com'', c_value = ''yes''\<rparr>]"

text \<open>
  The cookie of an earlier run is put into the browser context (lines 800-808).  Then
  step 1 up to the first screenshot: the exception of \<open>page.goto\<close> if it raised, and
  the state in which the landing page is looked at.
\<close>

definition load_cookie :: "config \<Rightarrow> state \<Rightarrow> state" where
  "load_cookie c s =
     (if session_token c \<noteq> [] then
        (let (r, s1) = perform (AddCookies (session_cookies c)) s
         in if raised r \<noteq> None then log ''loading the cookie failed'' WARN s1
            else log ''session cookie loaded'' SUCCESS s1)
      else s)"

definition run_open :: "config \<Rightarrow> state \<Rightarrow> string option \<times> state" where
  "run_open c s =
     (let s1 = load_cookie c s;
          s2 = log ''step 1: open ClawCloud'' STEP s1;
          (r3, s3) = perform (Goto SIGNIN_URL 60000) s2
      in case raised r3 of
           Some e \<Rightarrow> (Some e, s3)
         | None \<Rightarrow>
             let s4 = snd (perform (WaitForLoadState networkidle 30000) s3);
                 s5 = sleep 2 s4;
                 (f, s6) = shot ''clawcloud'' s5
             in (None, s6))"

text \<open>The body of the \<open>try\<close> block.\<close>

definition run_body :: "config \<Rightarrow> state \<Rightarrow> (string + ending) \<times> state" where
  "run_body c s =
     (case run_open c s of
        (Some e, s3) \<Rightarrow> (Inl e, s3)
      | (None, s6) \<Rightarrow>
          if \<not> contains ''signin'' (lower (page_url s6))
          then (case run_logged_in c s6 of (e, s7) \<Rightarrow> (Inr e, s7))
          else (case run_login c s6 of
                  (Inl x, s7) \<Rightarrow> (Inl x, s7)
                | (Inr (Some e), s7) \<Rightarrow> (Inr e, s7)
                | (Inr None, s7) \<Rightarrow> (case run_oauth c s7 of (e, s8) \<Rightarrow> (Inr e, s8))))"

text \<open>
  \<open>run\<close>: the banner and the three log lines (\<open>preamble\<close>), the check of the
  credentials, the browser, the \<open>try\<close> block with its handler for exceptions, and
  \<open>browser.close()\<close> in the \<open>finally\<close> clause, which is taken not to raise.
\<close>

definition preamble :: "state \<Rightarrow> state" where
  "preamble s =
     log ''password set or not'' INFO
       (log ''session set or not'' INFO
          (log ''user name'' INFO (print ''ClawCloud automatic login'' s)))"

definition run :: "config \<Rightarrow> state \<Rightarrow> ending \<times> state" where
  "run c s =
     (let s1 = preamble s
      in if \<not> truthy (username c) \<or> \<not> truthy (password c)
         then (SysExit 1,
               notify c False ''credentials not configured'' (log ''credentials missing'' ERROR s1))
         else
           let (r, s2) = perform Launch s1
           in case raised r of
                Some e \<Rightarrow> (Uncaught e, s2)
              | None \<Rightarrow>
                  (case run_body c s2 of
                     (Inr e, s3) \<Rightarrow> (e, snd (perform BrowserClose s3))
                   | (Inl x, s3) \<Rightarrow>
                       (SysExit 1,
                        snd (perform BrowserClose
                               (notify c False x
                                  (snd (shot ''exception'' (log ''exception'' ERROR s3))))))))"

subsection \<open>Reading the trace\<close>

text \<open>The texts posted to the operator, and how often a call was made.\<close>

definition messages_sent :: "action list \<Rightarrow> tg_text list" where
  "messages_sent tr = concat (map (\<lambda>a. case a of SendMessage m \<Rightarrow> [m] | _ \<Rightarrow> []) tr)"

definition calls_of :: "action \<Rightarrow> state \<Rightarrow> nat" where
  "calls_of a s = count_list (trace s) a"

text \<open>
  \<open>adds P s s'\<close>: the calls made between the states \<open>s\<close> and \<open>s'\<close> all satisfy
  \<open>P\<close>.  \<open>count_sleeps\<close> counts the calls of \<open>time.sleep\<close> made so far.
\<close>

definition adds :: "(action \<Rightarrow> bool) \<Rightarrow> state \<Rightarrow> state \<Rightarrow> bool" where
  "adds P s s' =
     (take (length (trace s)) (trace s') = trace s
      \<and> list_all P (drop (length (trace s)) (trace s')))"

fun is_sleep :: "action \<Rightarrow> bool" where
  "is_sleep (Sleep k) = True"
| "is_sleep a = False"

definition count_sleeps :: "state \<Rightarrow> nat" where
  "count_sleeps s = length (filter is_sleep (trace s))"

text \<open>
  The calls that belong to the login: the click on the provider, the entry of the
  credentials, device verification and the two-factor step drive the page through
  \<open>is_visible\<close>, \<open>click\<close>, \<open>fill\<close> and the like, poll the inbox, and send the
  operator texts other than the two about the cookie and the success report.  A call is
  \<open>quiet\<close> when it is none of these.
\<close>

fun login_text :: "tg_text \<Rightarrow> bool" where
  "login_text CookieUpdated = False"
| "login_text (NewCookie v) = False"
| "login_text (Report ok u e ls) = (\<not> ok)"
| "login_text m = True"

fun login_call :: "action \<Rightarrow> bool" where
  "login_call (Click sel i) = True"
| "login_call (Fill sel v) = True"
| "login_call (Press k) = True"
| "login_call (IsVisible sel i t) = True"
| "login_call (InnerText sel) = True"
| "login_call (LocatorAll sel) = True"
| "login_call (LocatorCount sel) = True"
| "login_call (Reload t) = True"
| "login_call (GetUpdates t off) = True"
| "login_call (SendMessage m) = login_text m"
| "login_call a = False"

definition quiet :: "action \<Rightarrow> bool" where
  "quiet a = (\<not> login_call a)"

text \<open>Every update that is queued at the server or will arrive later.\<close>

definition all_updates :: "state \<Rightarrow> update list" where
  "all_updates s = inbox s @ concat (map arrivals (future s))"

text \<open>
  The page has left device verification.  \<open>success_at c deadline sk s'\<close>: the state
  \<open>s'\<close> is the success report made at one of the three tests of the URL that follow the
  loop state \<open>sk\<close>, and the URL tested there holds no marker.
\<close>

definition off_device :: "state \<Rightarrow> bool" where
  "off_device s =
     (\<not> contains ''verified-device'' (page_url s) \<and> \<not> contains ''device-verification'' (page_url s))"

definition success_at :: "config \<Rightarrow> nat \<Rightarrow> state \<Rightarrow> state \<Rightarrow> bool" where
  "success_at c deadline sk s' =
     ((clock sk < deadline \<and> off_device sk
        \<and> s' = send c DeviceApproved (log ''device verification passed'' SUCCESS sk))
      \<or> (clock sk < deadline \<and> \<not> off_device sk \<and> off_device (after_continue sk)
        \<and> s' = log ''device verification passed after continue'' SUCCESS (after_continue sk))
      \<or> (deadline \<le> clock sk \<and> off_device (after_sweep sk)
        \<and> s' = send c DeviceApprovedForced
                  (log ''device verification passed after forced click'' SUCCESS (after_sweep sk))))"

text \<open>
  A call other than the two texts that tell the operator that device verification has
  passed.
\<close>

definition no_approval :: "action \<Rightarrow> bool" where
  "no_approval a = (a \<noteq> SendMessage DeviceApproved \<and> a \<noteq> SendMessage DeviceApprovedForced)"

subsection \<open>Concrete inputs\<close>

text \<open>A configuration with every variable set, and one with only the GitHub account.\<close>

definition cfg_full :: config where
  "cfg_full = \<lparr>username = Some ''octocat'', password = Some ''hunter2'', gh_session = [],
      tg_token = Some ''123:abc'', tg_chat_id = Some ''42'',
      repo_token = Some ''ghp_x'', repo = Some ''octocat/claw''\<rparr>"

definition cfg_bare :: config where
  "cfg_bare = \<lparr>username = Some ''octocat'', password = Some ''hunter2'', gh_session = [],
      tg_token = None, tg_chat_id = None, repo_token = None, repo = None\<rparr>"

text \<open>A fresh object in a world at clock 0, on the page \<open>u\<close>, that will answer \<open>rs\<close>.\<close>

definition start :: "string \<Rightarrow> reply list \<Rightarrow> state" where
  "start u rs = \<lparr>logs = [], shots = [], shot_no = 0, stdout = [], clock = 0, page_url = u,
      inbox = [], files = [], future = rs, trace = []\<rparr>"

text \<open>An answer without exception that leaves the page on \<open>u\<close> after \<open>t\<close> milliseconds.\<close>

definition fine :: "nat \<Rightarrow> string \<Rightarrow> reply" where
  "fine t u = \<lparr>took = t, raised = None, url_after = u, arrivals = [], visible = False,
      status = 0, api_ok = False, jar = [], body = [], count = 0\<rparr>"

text \<open>
  An update with a text message, an answer to \<open>getUpdates\<close> during which updates arrive,
  and two worlds on the page that asks for a code: one with an empty inbox where \<open>us\<close>
  arrive during the first poll, one where the text \<open>/code 123456\<close> of an earlier run is
  still queued and the request of \<open>flush_updates\<close> times out.
\<close>

definition code_update :: "int \<Rightarrow> int \<Rightarrow> string \<Rightarrow> update" where
  "code_update k who txt = \<lparr>update_id = k, message = Some \<lparr>chat_id = who, msg_text = Some txt\<rparr>\<rparr>"

definition answered :: "nat \<Rightarrow> update list \<Rightarrow> reply" where
  "answered t us = (fine t ''https://github.com/sessions/two-factor/app'')\<lparr>api_ok := True, arrivals := us\<rparr>"

definition code_world :: "update list \<Rightarrow> state" where
  "code_world us = start ''https://github.com/sessions/two-factor/app'' [answered 100 [], answered 130000 us]"

definition stale_world :: state where
  "stale_world =
     (start ''https://github.com/sessions/two-factor/app''
        [(fine 10000 ''https://github.com/sessions/two-factor/app'')\<lparr>raised := Some ''timeout''\<rparr>,
         answered 300 []])
     \<lparr>inbox := [code_update 5 42 ''/code 123456'']\<rparr>"

text \<open>
  A world on the page of the push prompt where the session expires during the first
  second of the wait: the screenshot, the message and the photo go through, and when the
  first \<open>time.sleep(1)\<close> is over the page is the login page.
\<close>

definition expired_world :: state where
  "expired_world =
     start ''https://github.com/sessions/two-factor/mobile''
       [fine 300 ''https://github.com/sessions/two-factor/mobile'',
        fine 400 ''https://github.com/sessions/two-factor/mobile'',
        fine 500 ''https://github.com/sessions/two-factor/mobile'',
        fine 0 ''https://github.com/login'']"

text \<open>
  A world on the device verification page where nothing can be clicked and the operator
  approves during the first second of waiting.
\<close>

definition pending :: reply where
  "pending = fine 100 ''https://github.com/sessions/verified-device''"

definition approved_world :: state where
  "approved_world =
     start ''https://github.com/sessions/verified-device''
       [pending, pending, pending, pending, pending, pending, pending, pending, pending,
        fine 0 ''https://github.com/'']"

text \<open>
  The same page in a world where the first look for a continue button takes 31
  seconds and nothing answers afterwards.
\<close>

definition timeout_world :: state where
  "timeout_world =
     start ''https://github.com/sessions/verified-device''
       [pending, fine 31000 ''https://github.com/sessions/verified-device'']"

text \<open>
  A configuration with a prior session token, the console page, and a world in which the
  cookie is accepted: the sign-in URL redirects to the console.
\<close>

definition cfg_session :: config where
  "cfg_session = cfg_bare\<lparr>gh_session := ''0123456789abcdef''\<rparr>"

definition console :: string where
  "console = ''https://ap-northeast-1.run.claw.cloud/''"

definition session_world :: state where
  "session_world =
     start ''about:blank''
       [fine 700 ''about:blank'', fine 20 ''about:blank'', fine 900 console, fine 300 console,
        fine 0 console, fine 150 console]"











section \<open>Properties\<close>

subsection \<open>Frame lemmas of the primitive calls\<close>

lemma trace_perform: "trace (snd (perform a s)) = trace s @ [a]"
  by (simp add: perform_def split: list.splits)

lemma trace_log: "trace (log m lv s) = trace s"
  by (simp add: log_def)

lemma trace_print: "trace (print m s) = trace s"
  by (simp add: print_def)

lemma trace_send: "trace (send c m s) = trace s @ (if tg_ok c then [SendMessage m] else [])"
  by (simp add: send_def trace_perform)

lemma messages_sent_append: "messages_sent (xs @ ys) = messages_sent xs @ messages_sent ys"
  by (simp add: messages_sent_def)

text \<open>
  \<open>update\<close> posts nothing to the operator, and asks for the public key and uploads at
  most once.
\<close>

lemma update_trace:
  "\<exists>tr. trace (snd (update c name v s)) = trace s @ tr \<and> messages_sent tr = []
        \<and> count_list tr GetPublicKey \<le> 1 \<and> (\<forall>x. count_list tr (PutSecret name x) \<le> 1)"
proof (cases "secret_ok c")
  case False
  then show ?thesis by (simp add: update_def messages_sent_def)
next
  case True
  obtain r0 s0 where p0: "perform ImportNacl s = (r0, s0)" by (cases "perform ImportNacl s")
  obtain r1 s1 where p1: "perform GetPublicKey s0 = (r1, s1)" by (cases "perform GetPublicKey s0")
  obtain r2 s2 where p2: "perform (Seal (body r1) v) s1 = (r2, s2)"
    by (cases "perform (Seal (body r1) v) s1")
  obtain r3 s3 where p3: "perform (PutSecret name (body r2)) s2 = (r3, s3)"
    by (cases "perform (PutSecret name (body r2)) s2")
  have t0: "trace s0 = trace s @ [ImportNacl]"
    using trace_perform [of ImportNacl s] p0 by simp
  have t1: "trace s1 = trace s @ [ImportNacl, GetPublicKey]"
    using trace_perform [of GetPublicKey s0] p1 t0 by simp
  have t2: "trace s2 = trace s @ [ImportNacl, GetPublicKey, Seal (body r1) v]"
    using trace_perform [of "Seal (body r1) v" s1] p2 t1 by simp
  have t3: "trace s3 = trace s @ [ImportNacl, GetPublicKey, Seal (body r1) v, PutSecret name (body r2)]"
    using trace_perform [of "PutSecret name (body r2)" s2] p3 t2 by simp
  show ?thesis
    using True p0 p1 p2 p3 t0 t1 t2 t3
    by (auto simp: update_def messages_sent_def trace_print)
qed

subsection \<open>Calls added to the trace\<close>

lemma adds_iff: "adds P s s' \<longleftrightarrow> (\<exists>tr. trace s' = trace s @ tr \<and> list_all P tr)"
proof
  assume "adds P s s'"
  then have "trace s' = trace s @ drop (length (trace s)) (trace s')"
    and "list_all P (drop (length (trace s)) (trace s'))"
    by (simp_all add: adds_def) (metis append_take_drop_id)
  then show "\<exists>tr. trace s' = trace s @ tr \<and> list_all P tr" by blast
next
  assume "\<exists>tr. trace s' = trace s @ tr \<and> list_all P tr"
  then show "adds P s s'" by (auto simp: adds_def)
qed

lemma adds_same: "trace s' = trace s \<Longrightarrow> adds P s s'"
  by (simp add: adds_def)

lemma adds_trans: "adds P s s1 \<Longrightarrow> adds P s1 s2 \<Longrightarrow> adds P s s2"
  by (auto simp: adds_iff)

lemma adds_perform: "P a \<Longrightarrow> adds P s (snd (perform a s))"
  by (simp add: adds_iff trace_perform)

lemma adds_perform': "P a \<Longrightarrow> perform a s = (r, s1) \<Longrightarrow> adds P s s1"
  using adds_perform [of P a s] by simp

lemma adds_log: "adds P s (log m lv s)"
  by (simp add: adds_same trace_log)

lemma adds_log': "adds P s s1 \<Longrightarrow> adds P s (log m lv s1)"
  by (simp add: adds_def trace_log)

lemma adds_sleep: "P (Sleep k) \<Longrightarrow> adds P s (sleep k s)"
  using adds_perform [of P "Sleep k" s] by (simp add: sleep_def Let_def adds_def)

lemma adds_shot: "(\<And>f. P (Screenshot f)) \<Longrightarrow> adds P s (snd (shot name s))"
proof -
  assume p: "\<And>f. P (Screenshot f)"
  let ?s0 = "s\<lparr>shot_no := shot_no s + 1\<rparr>"
  let ?f = "pad2 (shot_no s + 1) @ ''_'' @ name @ ''.png''"
  have "adds P ?s0 (snd (perform (Screenshot ?f) ?s0))" using p by (rule adds_perform)
  then show ?thesis by (auto simp: shot_def Let_def adds_def split: prod.splits)
qed

lemma adds_send: "P (SendMessage m) \<Longrightarrow> adds P s (send c m s)"
  by (simp add: send_def adds_perform adds_same)

lemma adds_photo: "(\<And>p cap. P (SendPhoto p cap)) \<Longrightarrow> adds P s (photo c p cap s)"
  by (simp add: photo_def adds_perform adds_same)

lemma adds_find_and_click:
  assumes "\<And>sel t. P (IsVisible sel 0 t)" "\<And>sel. P (Click sel 0)"
  shows "adds P s (snd (find_and_click sels desc t s))"
proof (induction sels arbitrary: s)
  case Nil
  then show ?case by (simp add: adds_same)
next
  case (Cons sel sels)
  obtain r s1 where p1: "perform (IsVisible sel 0 t) s = (r, s1)"
    by (cases "perform (IsVisible sel 0 t) s")
  obtain r2 s2 where p2: "perform (Click sel 0) s1 = (r2, s2)"
    by (cases "perform (Click sel 0) s1")
  have a1: "adds P s s1" using adds_perform [of P "IsVisible sel 0 t" s] assms(1) p1 by simp
  have a12: "adds P s1 s2" using adds_perform [of P "Click sel 0" s1] assms(2) p2 by simp
  have a2: "adds P s s2" using adds_trans [OF a1 a12] .
  have n1: "adds P s (snd (find_and_click sels desc t s1))"
    using adds_trans [OF a1 Cons.IH] .
  have n2: "adds P s (snd (find_and_click sels desc t (log (''click failed: '' @ sel) INFO s1)))"
    using adds_trans [OF adds_log' [OF a1] Cons.IH] .
  have n3: "adds P s (snd (find_and_click sels desc t (log (''click failed: '' @ sel) INFO s2)))"
    using adds_trans [OF adds_log' [OF a2] Cons.IH] .
  show ?case using p1 p2 a1 a2 n1 n2 n3 by (simp add: adds_log')
qed

lemma count_sleeps_adds: "adds (\<lambda>a. \<not> is_sleep a) s s' \<Longrightarrow> count_sleeps s' = count_sleeps s"
  by (auto simp: adds_iff count_sleeps_def list_all_iff filter_empty_conv)

lemma count_sleeps_sleep: "count_sleeps (sleep k s) = count_sleeps s + 1"
  by (simp add: sleep_def Let_def count_sleeps_def trace_perform)

lemma count_sleeps_log: "count_sleeps (log m lv s) = count_sleeps s"
  by (simp add: count_sleeps_def trace_log)

lemma count_sleeps_perform: "\<not> is_sleep a \<Longrightarrow> count_sleeps (snd (perform a s)) = count_sleeps s"
  by (simp add: count_sleeps_def trace_perform)

lemma count_sleeps_shot: "count_sleeps (snd (shot name s)) = count_sleeps s"
  by (rule count_sleeps_adds) (simp add: adds_shot)

lemma count_sleeps_find_and_click:
  "count_sleeps (snd (find_and_click sels desc t s)) = count_sleeps s"
  by (rule count_sleeps_adds) (simp add: adds_find_and_click)

subsection \<open>save\_cookie\<close>

text \<open>
  C10.  \<open>save_cookie\<close> called with \<open>None\<close> or with the empty string returns at once:
  the state after the call is the state before it, so no secret is updated, nothing is
  sent and nothing is logged.
\<close>

theorem save_cookie_empty_noop:
  "save_cookie c None s = s \<and> save_cookie c (Some []) s = s"
  by (simp add: save_cookie_def truthy_def)

theorem save_cookie_empty_noop_witness:
  "save_cookie cfg_full None (start ''https://github.com/'' []) = start ''https://github.com/'' []
   \<and> save_cookie cfg_full (Some []) (start ''https://github.com/'' []) = start ''https://github.com/'' []"
  using save_cookie_empty_noop [of cfg_full "start ''https://github.com/'' []"] by simp

text \<open>
  C6, as the code has it.  For a non-empty token \<open>v\<close>, \<open>save_cookie\<close> calls \<open>update\<close>
  once (one request for the public key and one upload at most, no second attempt) and
  then hands exactly one text to \<open>send\<close>: the raw token when \<open>update\<close> returned false,
  the fixed confirmation without the token when it returned true.  \<open>send\<close> posts the
  text when the bot token and the chat identity are configured and drops it otherwise.
\<close>

theorem save_cookie_compensates:
  assumes "v \<noteq> []"
  shows "messages_sent (trace (save_cookie c (Some v) s)) =
           messages_sent (trace s) @
           (if tg_ok c
            then [if fst (update c ''GH_SESSION'' v (log ''new cookie'' SUCCESS s))
                  then CookieUpdated else NewCookie v]
            else [])
         \<and> calls_of GetPublicKey (save_cookie c (Some v) s) \<le> calls_of GetPublicKey s + 1"
proof -
  let ?s1 = "log ''new cookie'' SUCCESS s"
  obtain ok s2 where u: "update c ''GH_SESSION'' v ?s1 = (ok, s2)"
    by (cases "update c ''GH_SESSION'' v ?s1")
  obtain tr where tr: "trace s2 = trace s @ tr" "messages_sent tr = []"
      "count_list tr GetPublicKey \<le> 1"
    using update_trace [of c "''GH_SESSION''" v ?s1] u by (auto simp: trace_log)
  have sc: "save_cookie c (Some v) s =
      (if ok then send c CookieUpdated (log ''GH_SESSION updated'' SUCCESS s2)
       else log ''cookie sent through Telegram'' SUCCESS (send c (NewCookie v) s2))"
    using assms u by (simp add: save_cookie_def truthy_def)
  have tt: "trace (save_cookie c (Some v) s) =
      trace s @ tr @ (if tg_ok c then [SendMessage (if ok then CookieUpdated else NewCookie v)] else [])"
    using tr(1) by (simp add: sc trace_send trace_log)
  have m: "messages_sent (trace (save_cookie c (Some v) s)) =
      messages_sent (trace s) @ (if tg_ok c then [if ok then CookieUpdated else NewCookie v] else [])"
    using tr(2) by (simp add: tt messages_sent_append) (simp add: messages_sent_def)
  have k: "calls_of GetPublicKey (save_cookie c (Some v) s) \<le> calls_of GetPublicKey s + 1"
    using tr(3) by (simp add: calls_of_def tt)
  show ?thesis using m k u by simp
qed

text \<open>
  With Telegram and the secret store both configured and the key request answered by
  status 500, the raw token is the one text posted.
\<close>

theorem save_cookie_compensates_witness:
  "''tok'' \<noteq> [] \<and>
   messages_sent (trace (save_cookie cfg_full (Some ''tok'')
       (start ''https://github.com/'' [fine 5 ''https://github.com/'', (fine 7 ''https://github.com/'')\<lparr>status := 500\<rparr>]))) =
     [NewCookie ''tok'']"
proof -
  let ?s = "start ''https://github.com/'' [fine 5 ''https://github.com/'', (fine 7 ''https://github.com/'')\<lparr>status := 500\<rparr>]"
  have h: "''tok'' \<noteq> []" by simp
  have f: "\<not> fst (update cfg_full ''GH_SESSION'' ''tok'' (log ''new cookie'' SUCCESS ?s))"
    by (simp add: update_def secret_ok_def truthy_def cfg_full_def perform_def log_def
        start_def fine_def)
  have "tg_ok cfg_full" by (simp add: tg_ok_def truthy_def cfg_full_def)
  then show ?thesis
    using save_cookie_compensates [OF h, of cfg_full ?s] f
    by (simp add: start_def messages_sent_def)
qed

text \<open>
  C6 as the specification words it fails when Telegram is not configured: \<open>update\<close>
  returns false, and the raw token is posted zero times.
\<close>

theorem save_cookie_unconfigured_counterexample:
  "\<not> (\<not> fst (update cfg_bare ''GH_SESSION'' ''tok'' (log ''new cookie'' SUCCESS (start ''https://github.com/'' [])))
      \<longrightarrow> count_list (messages_sent (trace (save_cookie cfg_bare (Some ''tok'') (start ''https://github.com/'' []))))
            (NewCookie ''tok'') = 1)"
  by (simp add: save_cookie_def update_def send_def secret_ok_def tg_ok_def truthy_def
      cfg_bare_def log_def start_def messages_sent_def)

subsection \<open>wait\_code\<close>

lemma all_updates_perform: "all_updates (snd (perform a s)) = all_updates s"
  by (simp add: perform_def all_updates_def split: list.splits)

lemma all_updates_sleep: "all_updates (sleep k s) = all_updates s"
  using all_updates_perform [of "Sleep k" s] by (simp add: sleep_def Let_def all_updates_def)

lemma all_updates_inbox: "set (inbox s) \<subseteq> set (all_updates s)"
  by (simp add: all_updates_def)

lemma all_updates_shrink:
  "set xs \<subseteq> set (inbox s) \<Longrightarrow> set (all_updates (s\<lparr>inbox := xs\<rparr>)) \<subseteq> set (all_updates s)"
  by (auto simp: all_updates_def)

lemma get_updates_shape:
  assumes "get_updates t off s = (Inr (ok, res), s1)"
  shows "set res \<subseteq> set (inbox (snd (perform (GetUpdates t off) s)))"
    and "s1 = snd (perform (GetUpdates t off) s) \<or> s1 = (snd (perform (GetUpdates t off) s))\<lparr>inbox := res\<rparr>"
    and "\<forall>u \<in> set res. \<forall>k. off = Some k \<longrightarrow> k \<le> update_id u"
proof -
  obtain r s0 where p: "perform (GetUpdates t off) s = (r, s0)"
    by (cases "perform (GetUpdates t off) s")
  have n: "raised r = None" using assms p by (simp add: get_updates_def split: option.splits)
  show "set res \<subseteq> set (inbox (snd (perform (GetUpdates t off) s)))"
    using assms p n by (cases off; cases "api_ok r") (auto simp: get_updates_def Let_def)
  show "s1 = snd (perform (GetUpdates t off) s) \<or> s1 = (snd (perform (GetUpdates t off) s))\<lparr>inbox := res\<rparr>"
    using assms p n by (cases off; cases "api_ok r") (auto simp: get_updates_def Let_def)
  show "\<forall>u \<in> set res. \<forall>k. off = Some k \<longrightarrow> k \<le> update_id u"
    using assms p n by (cases off; cases "api_ok r") (auto simp: get_updates_def Let_def)
qed

lemma get_updates_served:
  assumes "get_updates t off s = (Inr (ok, res), s1)"
  shows "set res \<subseteq> set (all_updates s)" and "set (all_updates s1) \<subseteq> set (all_updates s)"
    and "\<forall>u \<in> set res. \<forall>k. off = Some k \<longrightarrow> k \<le> update_id u"
proof -
  let ?s0 = "snd (perform (GetUpdates t off) s)"
  have a: "all_updates ?s0 = all_updates s" by (rule all_updates_perform)
  have r: "set res \<subseteq> set (inbox ?s0)" by (rule get_updates_shape(1) [OF assms])
  then show "set res \<subseteq> set (all_updates s)"
    using all_updates_inbox [of ?s0] a by auto
  show "set (all_updates s1) \<subseteq> set (all_updates s)"
    using get_updates_shape(2) [OF assms] all_updates_shrink [OF r] a by auto
  show "\<forall>u \<in> set res. \<forall>k. off = Some k \<longrightarrow> k \<le> update_id u"
    by (rule get_updates_shape(3) [OF assms])
qed

lemma get_updates_raised:
  assumes "get_updates t off s = (Inl e, s1)"
  shows "all_updates s1 = all_updates s"
  using assms all_updates_perform [of "GetUpdates t off" s]
  by (auto simp: get_updates_def Let_def split: prod.splits option.splits if_splits)

lemma scan_updates_Some:
  "scan_updates cid k res = (Some code, k') \<Longrightarrow>
     \<exists>u \<in> set res. sender u = cid \<and> pattern_match (strip (text_of u)) = Some code"
  by (induction res arbitrary: k) (auto split: if_splits option.splits)

lemma scan_updates_offset:
  "\<forall>u \<in> set res. k0 \<le> update_id u \<Longrightarrow> k0 \<le> k \<Longrightarrow> k0 \<le> snd (scan_updates cid k res)"
  by (induction res arbitrary: k) (auto split: option.splits)

lemma pattern_match_Some:
  assumes "pattern_match t = Some ds"
  shows "6 \<le> length ds \<and> length ds \<le> 8 \<and> list_all isdigit ds \<and>
         (\<exists>ws. ws \<noteq> [] \<and> list_all isspace ws \<and> t = ''/code'' @ ws @ ds)"
proof -
  let ?rest = "drop 5 t"
  have p: "take 5 t = ''/code''" and d: "ds = dropWhile isspace ?rest"
    and w: "takeWhile isspace ?rest \<noteq> []" and l: "6 \<le> length ds" "length ds \<le> 8" "list_all isdigit ds"
    using assms by (auto simp: pattern_match_def Let_def split: if_splits)
  have "t = take 5 t @ takeWhile isspace ?rest @ dropWhile isspace ?rest" by simp
  then have "t = ''/code'' @ takeWhile isspace ?rest @ ds" using p d by simp
  moreover have "list_all isspace (takeWhile isspace ?rest)"
    by (simp add: list_all_iff) (meson set_takeWhileD)
  ultimately show ?thesis using w l by blast
qed

lemma wait_code_loop_Some:
  "wait_code_loop cid deadline k s = (Some code, s') \<Longrightarrow> k0 \<le> k \<Longrightarrow>
     \<exists>u \<in> set (all_updates s). k0 \<le> update_id u \<and> sender u = cid
        \<and> pattern_match (strip (text_of u)) = Some code"
proof (induction cid deadline k s rule: wait_code_loop.induct)
  case (1 cid deadline offset s)
  note unfold = wait_code_loop.simps [of cid deadline offset s]
  let ?goal = "\<lambda>s. \<exists>u \<in> set (all_updates s). k0 \<le> update_id u \<and> sender u = cid
        \<and> pattern_match (strip (text_of u)) = Some code"
  show ?case
  proof (cases "clock s < deadline")
    case False
    then show ?thesis using "1.prems" by (simp add: unfold)
  next
    case True
    obtain x s1 where g: "get_updates 20 (Some offset) s = (x, s1)"
      by (cases "get_updates 20 (Some offset) s")
    show ?thesis
    proof (cases x)
      case (Inl e)
      have "wait_code_loop cid deadline offset (sleep 2 s1) = (Some code, s')"
        using "1.prems" True g Inl by (simp add: unfold)
      then have "?goal (sleep 2 s1)"
        using "1.IH"(1) "1.prems"(2) True g Inl by simp
      then show ?thesis using get_updates_raised g Inl by (simp add: all_updates_sleep)
    next
      case (Inr y)
      obtain ok res where y: "y = (ok, res)" by (cases y)
      have sub: "set res \<subseteq> set (all_updates s)" "set (all_updates s1) \<subseteq> set (all_updates s)"
        and ge: "\<forall>u \<in> set res. k0 \<le> update_id u"
        using get_updates_served [of 20 "Some offset" s ok res s1] g Inr y "1.prems"(2)
        by force+
      show ?thesis
      proof (cases ok)
        case False
        have "wait_code_loop cid deadline offset (sleep 2 s1) = (Some code, s')"
          using "1.prems" True g Inr y False by (simp add: unfold)
        then have "?goal (sleep 2 s1)"
          using "1.IH"(2) "1.prems"(2) True g Inr y False by simp
        then show ?thesis using sub by (auto simp: all_updates_sleep)
      next
        case ok: True
        obtain found off where sc: "scan_updates cid offset res = (found, off)"
          by (cases "scan_updates cid offset res")
        have off: "k0 \<le> off"
          using scan_updates_offset [OF ge "1.prems"(2), of cid] sc by simp
        show ?thesis
        proof (cases found)
          case None
          have "wait_code_loop cid deadline off (sleep 2 s1) = (Some code, s')"
            using "1.prems" True g Inr y ok sc None by (simp add: unfold)
          then have "?goal (sleep 2 s1)"
            using "1.IH"(3) off True g Inr y ok sc None by simp
          then show ?thesis using sub by (auto simp: all_updates_sleep)
        next
          case (Some c0)
          have "c0 = code" using "1.prems" True g Inr y ok sc Some by (simp add: unfold)
          then show ?thesis
            using scan_updates_Some [of cid offset res code off] sc Some sub ge by auto
        qed
      qed
    qed
  qed
qed

lemma wait_code_loop_None:
  "wait_code_loop cid deadline k s = (None, s') \<Longrightarrow> deadline \<le> clock s'"
proof (induction cid deadline k s rule: wait_code_loop.induct)
  case (1 cid deadline offset s)
  note unfold = wait_code_loop.simps [of cid deadline offset s]
  show ?case
  proof (cases "clock s < deadline")
    case False
    then show ?thesis using "1.prems" by (simp add: unfold)
  next
    case True
    obtain x s1 where g: "get_updates 20 (Some offset) s = (x, s1)"
      by (cases "get_updates 20 (Some offset) s")
    show ?thesis
    proof (cases x)
      case (Inl e)
      then show ?thesis using "1.prems" "1.IH"(1) True g by (simp add: unfold)
    next
      case (Inr y)
      obtain ok res where y: "y = (ok, res)" by (cases y)
      obtain found off where sc: "scan_updates cid offset res = (found, off)"
        by (cases "scan_updates cid offset res")
      show ?thesis
      proof (cases ok)
        case False
        then show ?thesis using "1.prems" "1.IH"(2) True g Inr y by (simp add: unfold)
      next
        case ok: True
        show ?thesis
        proof (cases found)
          case None
          then show ?thesis using "1.prems" "1.IH"(3) True g Inr y ok sc by (simp add: unfold)
        next
          case (Some c0)
          then show ?thesis using "1.prems" True g Inr y ok sc by (simp add: unfold)
        qed
      qed
    qed
  qed
qed


text \<open>
  Where a returned code comes from: an update of the configured sender, with a matching
  text, whose id is at least the offset that \<open>flush_updates\<close> returned.
\<close>

lemma flush_updates_frame:
  "set (all_updates (snd (flush_updates c s))) \<subseteq> set (all_updates s)
   \<and> clock s \<le> clock (snd (flush_updates c s))"
proof (cases "tg_ok c")
  case False
  then show ?thesis by (simp add: flush_updates_def)
next
  case True
  obtain x s0 where g: "get_updates 0 None s = (x, s0)" by (cases "get_updates 0 None s")
  have e: "snd (flush_updates c s) = s0"
    using g True by (auto simp: flush_updates_def split: sum.splits prod.splits)
  have "set (all_updates s0) \<subseteq> set (all_updates s)"
    using g get_updates_raised [of 0 None s _ s0] get_updates_served(2) [of 0 None s _ _ s0]
    by (cases x) auto
  moreover have "clock s \<le> clock s0" using clock_get_updates [of s 0 None] g by simp
  ultimately show ?thesis using e by simp
qed

lemma wait_code_unfold:
  "tg_ok c \<Longrightarrow>
   wait_code c t s =
     wait_code_loop (chat_id_str c) (clock (snd (flush_updates c s)) + 1000 * t)
       (fst (flush_updates c s)) (snd (flush_updates c s))"
  by (simp add: wait_code_def split: prod.splits)

lemma wait_code_source:
  assumes "fst (wait_code c t s) = Some code"
  shows "\<exists>u \<in> set (all_updates s). fst (flush_updates c s) \<le> update_id u
           \<and> sender u = chat_id_str c \<and> pattern_match (strip (text_of u)) = Some code"
proof -
  have ok: "tg_ok c" using assms by (auto simp: wait_code_def split: if_splits)
  have "wait_code_loop (chat_id_str c) (clock (snd (flush_updates c s)) + 1000 * t)
       (fst (flush_updates c s)) (snd (flush_updates c s)) = (Some code, snd (wait_code c t s))"
    using assms wait_code_unfold [OF ok, of t s] by (metis prod.collapse)
  from wait_code_loop_Some [OF this order_refl] show ?thesis
    using flush_updates_frame [of c s] by blast
qed

text \<open>
  C3.  A value returned by \<open>wait_code\<close> is a string of six to eight digits; it was
  taken from an update (queued or arrived later) whose sender, as a string, equals the
  configured chat identity and whose stripped text is \<open>/code\<close>, white space, and those
  digits.  When no update of the configured sender has a matching text, \<open>wait_code\<close>
  returns nothing, and with Telegram configured it does so only once the deadline has
  passed.
\<close>

theorem wait_code_authorised:
  "(fst (wait_code c t s) = Some code \<longrightarrow>
      6 \<le> length code \<and> length code \<le> 8 \<and> list_all isdigit code \<and>
      (\<exists>u \<in> set (all_updates s). sender u = chat_id_str c \<and>
         (\<exists>ws. ws \<noteq> [] \<and> list_all isspace ws \<and> strip (text_of u) = ''/code'' @ ws @ code)))
   \<and> ((\<forall>u \<in> set (all_updates s). sender u = chat_id_str c \<longrightarrow> pattern_match (strip (text_of u)) = None)
        \<longrightarrow> fst (wait_code c t s) = None
            \<and> (tg_ok c \<longrightarrow> clock s + 1000 * t \<le> clock (snd (wait_code c t s))))"
proof (intro conjI impI)
  assume a: "fst (wait_code c t s) = Some code"
  then obtain u where u: "u \<in> set (all_updates s)" "sender u = chat_id_str c"
      "pattern_match (strip (text_of u)) = Some code"
    using wait_code_source by blast
  from pattern_match_Some [OF u(3)]
  show "6 \<le> length code" and "length code \<le> 8" and "list_all isdigit code" by simp_all
  from pattern_match_Some [OF u(3)] u(1,2)
  show "\<exists>u \<in> set (all_updates s). sender u = chat_id_str c \<and>
         (\<exists>ws. ws \<noteq> [] \<and> list_all isspace ws \<and> strip (text_of u) = ''/code'' @ ws @ code)"
    by blast
next
  assume n: "\<forall>u \<in> set (all_updates s). sender u = chat_id_str c \<longrightarrow> pattern_match (strip (text_of u)) = None"
  show none: "fst (wait_code c t s) = None"
  proof (cases "fst (wait_code c t s)")
    case None
    then show ?thesis .
  next
    case (Some code')
    from wait_code_source [OF this] n show ?thesis by auto
  qed
  assume ok: "tg_ok c"
  have "wait_code_loop (chat_id_str c) (clock (snd (flush_updates c s)) + 1000 * t)
       (fst (flush_updates c s)) (snd (flush_updates c s)) = (None, snd (wait_code c t s))"
    using none wait_code_unfold [OF ok, of t s] by (metis prod.collapse)
  from wait_code_loop_None [OF this] flush_updates_frame [of c s]
  show "clock s + 1000 * t \<le> clock (snd (wait_code c t s))" by simp
qed

lemma str_int_42: "str_int 42 = ''42''"
  by code_simp

lemma str_int_99: "str_int 99 = ''99''"
  by code_simp

text \<open>
  The operator (chat 42) answers during the first poll; and an answer from chat 99 is
  not taken.
\<close>

theorem wait_code_authorised_witness:
  "fst (wait_code cfg_full 120 (code_world [code_update 7 42 ''/code 123456''])) = Some ''123456''
   \<and> 6 \<le> length ''123456'' \<and> length ''123456'' \<le> (8::nat)
   \<and> fst (wait_code cfg_full 120 (code_world [code_update 7 99 ''/code 123456''])) = None
   \<and> 120000 \<le> clock (snd (wait_code cfg_full 120 (code_world [code_update 7 99 ''/code 123456''])))"
proof -
  have a: "fst (wait_code cfg_full 120 (code_world [code_update 7 42 ''/code 123456''])) = Some ''123456''"
    by (simp add: wait_code_def flush_updates_def get_updates_def perform_def sleep_def
        wait_code_loop.simps tg_ok_def truthy_def cfg_full_def code_world_def start_def
        answered_def fine_def code_update_def chat_id_str_def sender_def text_of_def str_int_42
        pattern_match_def strip_def isspace_def isdigit_def Let_def)
  have b: "\<forall>u \<in> set (all_updates (code_world [code_update 7 99 ''/code 123456''])).
      sender u = chat_id_str cfg_full \<longrightarrow> pattern_match (strip (text_of u)) = None"
    by (simp add: all_updates_def code_world_def start_def answered_def fine_def code_update_def
        sender_def chat_id_str_def cfg_full_def str_int_99)
  have ok: "tg_ok cfg_full" by (simp add: tg_ok_def truthy_def cfg_full_def)
  have c: "clock (code_world [code_update 7 99 ''/code 123456'']) = 0"
    by (simp add: code_world_def start_def)
  show ?thesis
    using wait_code_authorised [of cfg_full 120 "code_world [code_update 7 42 ''/code 123456'']" "''123456''"]
      wait_code_authorised [of cfg_full 120 "code_world [code_update 7 99 ''/code 123456'']" "[]"]
      a b ok c
    by simp
qed

text \<open>
  C2 at the failing input.  The text \<open>/code 123456\<close> of an earlier run is queued when
  \<open>wait_code\<close> is called; the request of \<open>flush_updates\<close> raises, the offset falls back
  to 0, and the first poll hands the old code back.
\<close>

theorem wait_code_replays_stale_code:
  "inbox stale_world = [code_update 5 42 ''/code 123456'']
   \<and> fst (flush_updates cfg_full stale_world) = 0
   \<and> fst (wait_code cfg_full 120 stale_world) = Some ''123456''"
  by (simp add: wait_code_def flush_updates_def get_updates_def perform_def sleep_def
      wait_code_loop.simps tg_ok_def truthy_def cfg_full_def stale_world_def start_def
      answered_def fine_def code_update_def chat_id_str_def sender_def text_of_def str_int_42
      pattern_match_def strip_def isspace_def isdigit_def Let_def)

subsection \<open>wait\_device\<close>

lemma wait_device_unfold:
  "wait_device c s =
     wait_device_loop c (clock (wait_device_begin c s))
       (clock (wait_device_begin c s) + 1000 * DEVICE_VERIFY_WAIT) 0 (wait_device_begin c s)"
  by (cases "shot ''device verification'' (log ''device verification needed'' WARN s)")
     (simp add: wait_device_def wait_device_begin_def Let_def)

lemma wait_device_states_last:
  "wait_device_states c start_time deadline last_log_time s \<noteq> []"
  by (subst wait_device_states.simps) (auto simp: Let_def split: prod.splits sum.splits option.splits)

lemma wait_device_poll_cases:
  assumes "wait_device_poll c s = (Inr (Some b), s1)"
  shows "b \<and> ((off_device s
                 \<and> s1 = send c DeviceApproved (log ''device verification passed'' SUCCESS s))
              \<or> (\<not> off_device s \<and> off_device (after_continue s)
                 \<and> s1 = log ''device verification passed after continue'' SUCCESS (after_continue s)))"
proof (cases "off_device s")
  case True
  then have "wait_device_poll c s =
      (Inr (Some True), send c DeviceApproved (log ''device verification passed'' SUCCESS s))"
    by (simp add: wait_device_poll_def off_device_def Let_def)
  then show ?thesis using assms True by simp
next
  case False
  obtain clicked s1' where f: "find_and_click continue_buttons ''continue button'' 3000 s = (clicked, s1')"
    by (cases "find_and_click continue_buttons ''continue button'' 3000 s")
  obtain r s3 where p: "perform (WaitForLoadState networkidle 10000) (sleep 2 s1') = (r, s3)"
    by (cases "perform (WaitForLoadState networkidle 10000) (sleep 2 s1')")
  have e: "after_continue s = s3" using f p by (simp add: after_continue_def)
  have "b \<and> off_device s3 \<and> s1 = log ''device verification passed after continue'' SUCCESS s3"
    using assms False f p
    by (auto simp: wait_device_poll_def off_device_def Let_def split: if_splits option.splits)
  then show ?thesis using False e by simp
qed

lemma wait_device_loop_verdict:
  "(wait_device_loop c start_time deadline last_log_time s = (Inr True, s') \<longrightarrow>
      success_at c deadline (last (wait_device_states c start_time deadline last_log_time s)) s')
   \<and> (deadline \<le> clock (last (wait_device_states c start_time deadline last_log_time s)) \<longrightarrow>
        wait_device_loop c start_time deadline last_log_time s =
          wait_device_timeout c (last (wait_device_states c start_time deadline last_log_time s)))"
proof (induction c start_time deadline last_log_time s rule: wait_device_loop.induct)
  case (1 c start_time deadline last_log_time s)
  note unfold = wait_device_loop.simps [of c start_time deadline last_log_time s]
  note states = wait_device_states.simps [of c start_time deadline last_log_time s]
  show ?case
  proof (cases "clock s < deadline")
    case False
    have l: "wait_device_states c start_time deadline last_log_time s = [s]"
      using False by (simp add: states)
    have t: "wait_device_loop c start_time deadline last_log_time s = wait_device_timeout c s"
      using False by (simp add: unfold)
    have "success_at c deadline s s'" if "wait_device_timeout c s = (Inr True, s')"
      using that False
      by (auto simp: success_at_def wait_device_timeout_def after_sweep_def off_device_def Let_def
          split: if_splits)
    then show ?thesis using l t by simp
  next
    case True
    obtain x s1 where w: "wait_device_poll c s = (x, s1)" by (cases "wait_device_poll c s")
    show ?thesis
    proof (cases x)
      case (Inl e)
      then show ?thesis using True w by (simp add: unfold states)
    next
      case (Inr y)
      show ?thesis
      proof (cases y)
        case (Some b)
        have l: "wait_device_states c start_time deadline last_log_time s = [s]"
          using True w Inr Some by (simp add: states)
        have r: "wait_device_loop c start_time deadline last_log_time s = (Inr b, s1)"
          using True w Inr Some by (simp add: unfold)
        show ?thesis
          using wait_device_poll_cases [of c s b s1] w Inr Some True l r
          by (auto simp: success_at_def)
      next
        case None
        let ?elapsed = "(clock s1 - start_time) div 1000"
        let ?due = "?elapsed mod 5 = 0 \<and> ?elapsed \<noteq> last_log_time"
        let ?s2 = "if ?due then log ''waiting for device verification'' INFO s1 else s1"
        let ?ll = "if ?due then ?elapsed else last_log_time"
        have l: "wait_device_states c start_time deadline last_log_time s =
            s # wait_device_states c start_time deadline ?ll (sleep 1 ?s2)"
          using True w Inr None by (simp add: states Let_def)
        have r: "wait_device_loop c start_time deadline last_log_time s =
            wait_device_loop c start_time deadline ?ll (sleep 1 ?s2)"
          using True w Inr None by (simp add: unfold Let_def)
        have la: "last (wait_device_states c start_time deadline last_log_time s) =
            last (wait_device_states c start_time deadline ?ll (sleep 1 ?s2))"
          using l wait_device_states_last by simp
        show ?thesis
          using "1.IH" [OF True w [symmetric] Inr None refl refl refl] r la by simp
      qed
    qed
  qed
qed


text \<open>
  Up to the last test of the guard, through the click on a continue button and through
  the sweep, and on every way out of \<open>wait_device\<close> other than the return of true,
  neither of the two texts about a passed verification is sent.
\<close>

lemma adds_force_elements:
  assumes "\<And>i. P (IsVisible btn i 1000)" "\<And>i. P (Click btn i)" "P (Sleep 2)"
  shows "adds P s (force_elements btn ks s)"
proof (induction ks arbitrary: s)
  case Nil
  then show ?case by (simp add: adds_same)
next
  case (Cons i rest)
  obtain r s1 where p1: "perform (IsVisible btn i 1000) s = (r, s1)"
    by (cases "perform (IsVisible btn i 1000) s")
  obtain r2 s2 where p2: "perform (Click btn i) s1 = (r2, s2)"
    by (cases "perform (Click btn i) s1")
  have a1: "adds P s s1" using adds_perform [of P "IsVisible btn i 1000" s] assms(1) p1 by simp
  have a12: "adds P s1 s2" using adds_perform [of P "Click btn i" s1] assms(2) p2 by simp
  have a2: "adds P s s2" using adds_trans [OF a1 a12] .
  have n1: "adds P s (force_elements btn rest s1)" using adds_trans [OF a1 Cons.IH] .
  have n2: "adds P s (force_elements btn rest s2)" using adds_trans [OF a2 Cons.IH] .
  have n3: "adds P s (sleep 2 (log ''forced a click'' SUCCESS s2))"
    using adds_trans [OF adds_log' [OF a2] adds_sleep [of P 2, OF assms(3)]] .
  show ?case using p1 p2 a1 n1 n2 n3 by simp
qed

lemma adds_force_continue:
  assumes "\<And>btn i. P (IsVisible btn i 1000)" "\<And>btn i. P (Click btn i)" "P (Sleep 2)"
    and "\<And>btn. P (LocatorAll btn)"
  shows "adds P s (force_continue btns s)"
proof (induction btns arbitrary: s)
  case Nil
  then show ?case by (simp add: adds_same)
next
  case (Cons btn btns)
  obtain r s1 where p1: "perform (LocatorAll btn) s = (r, s1)"
    by (cases "perform (LocatorAll btn) s")
  have a1: "adds P s s1" using adds_perform [of P "LocatorAll btn" s] assms(4) p1 by simp
  have a2: "adds P s (force_elements btn [0..<count r] s1)"
    using adds_trans [OF a1 adds_force_elements [of P btn, OF assms(1,2,3)]] .
  have n1: "adds P s (force_continue btns s1)" using adds_trans [OF a1 Cons.IH] .
  have n2: "adds P s (force_continue btns (force_elements btn [0..<count r] s1))"
    using adds_trans [OF a2 Cons.IH] .
  show ?case using p1 n1 n2 by simp
qed

lemma quiet_after_continue: "adds no_approval s (after_continue s)"
proof -
  let ?s1 = "snd (find_and_click continue_buttons ''continue button'' 3000 s)"
  have a1: "adds no_approval s ?s1"
    by (rule adds_find_and_click) (simp_all add: no_approval_def)
  have a2: "adds no_approval ?s1 (sleep 2 ?s1)" by (rule adds_sleep) (simp add: no_approval_def)
  have a3: "adds no_approval (sleep 2 ?s1) (after_continue s)"
    unfolding after_continue_def by (rule adds_perform) (simp add: no_approval_def)
  from adds_trans [OF adds_trans [OF a1 a2] a3] show ?thesis .
qed

lemma quiet_after_sweep: "adds no_approval s (after_sweep s)"
  unfolding after_sweep_def
  by (rule adds_trans [OF adds_log adds_force_continue]) (simp_all add: no_approval_def)

lemma quiet_wait_device_begin: "adds no_approval s (wait_device_begin c s)"
proof -
  let ?s1 = "log ''device verification needed'' WARN s"
  obtain f s2 where sh: "shot ''device verification'' ?s1 = (f, s2)"
    by (cases "shot ''device verification'' ?s1")
  have a2: "adds no_approval ?s1 s2"
    using adds_shot [of no_approval ?s1 "''device verification''"] sh by (simp add: no_approval_def)
  have a3: "adds no_approval s2 (send c DeviceNeeded s2)"
    by (rule adds_send) (simp add: no_approval_def)
  have a4: "adds no_approval (send c DeviceNeeded s2)
      (photo c f ''device verification page'' (send c DeviceNeeded s2))"
    by (rule adds_photo) (simp add: no_approval_def)
  have a13: "adds no_approval s (send c DeviceNeeded s2)"
    using adds_trans [OF adds_trans [OF adds_log a2] a3] .
  show ?thesis using sh a13 adds_trans [OF a13 a4] by (simp add: wait_device_begin_def Let_def)
qed

lemma quiet_wait_device_poll:
  assumes "fst (wait_device_poll c s) \<noteq> Inr (Some True)"
  shows "adds no_approval s (snd (wait_device_poll c s))"
proof -
  obtain clicked s1 where f: "find_and_click continue_buttons ''continue button'' 3000 s = (clicked, s1)"
    by (cases "find_and_click continue_buttons ''continue button'' 3000 s")
  obtain r s3 where p: "perform (WaitForLoadState networkidle 10000) (sleep 2 s1) = (r, s3)"
    by (cases "perform (WaitForLoadState networkidle 10000) (sleep 2 s1)")
  have a1: "adds no_approval s s1"
    using adds_find_and_click [of no_approval s continue_buttons "''continue button''" 3000] f
    by (simp add: no_approval_def)
  have "after_continue s = s3" using f p by (simp add: after_continue_def)
  then have a3: "adds no_approval s s3" using quiet_after_continue [of s] by simp
  show ?thesis
    using assms f p a1 a3
    by (auto simp: wait_device_poll_def Let_def split: if_splits option.splits)
qed

lemma quiet_wait_device_loop:
  "adds no_approval s (last (wait_device_states c start_time deadline last_log_time s))
   \<and> (fst (wait_device_loop c start_time deadline last_log_time s) \<noteq> Inr True \<longrightarrow>
        adds no_approval s (snd (wait_device_loop c start_time deadline last_log_time s)))"
proof (induction c start_time deadline last_log_time s rule: wait_device_loop.induct)
  case (1 c start_time deadline last_log_time s)
  note unfold = wait_device_loop.simps [of c start_time deadline last_log_time s]
  note states = wait_device_states.simps [of c start_time deadline last_log_time s]
  show ?case
  proof (cases "clock s < deadline")
    case False
    have l: "wait_device_states c start_time deadline last_log_time s = [s]"
      using False by (simp add: states)
    have t: "wait_device_loop c start_time deadline last_log_time s = wait_device_timeout c s"
      using False by (simp add: unfold)
    have sw: "adds no_approval s (after_sweep s)" by (rule quiet_after_sweep)
    have "adds no_approval s (snd (wait_device_timeout c s))"
      if "fst (wait_device_timeout c s) \<noteq> Inr True"
    proof -
      have "snd (wait_device_timeout c s) =
          send c DeviceTimeout (log ''device verification timeout'' ERROR (after_sweep s))"
        using that by (auto simp: wait_device_timeout_def after_sweep_def Let_def split: if_splits)
      moreover have "adds no_approval (after_sweep s)
          (send c DeviceTimeout (log ''device verification timeout'' ERROR (after_sweep s)))"
        by (rule adds_trans [OF adds_log adds_send]) (simp add: no_approval_def)
      ultimately show ?thesis using adds_trans [OF sw] by simp
    qed
    then show ?thesis using l t by (simp add: adds_same)
  next
    case True
    obtain x s1 where w: "wait_device_poll c s = (x, s1)" by (cases "wait_device_poll c s")
    show ?thesis
    proof (cases x)
      case (Inl e)
      have "adds no_approval s s1" using quiet_wait_device_poll [of c s] w Inl by simp
      then show ?thesis using True w Inl by (simp add: unfold states adds_same)
    next
      case (Inr y)
      show ?thesis
      proof (cases y)
        case (Some b)
        have l: "wait_device_states c start_time deadline last_log_time s = [s]"
          using True w Inr Some by (simp add: states)
        have r: "wait_device_loop c start_time deadline last_log_time s = (Inr b, s1)"
          using True w Inr Some by (simp add: unfold)
        have "b" using wait_device_poll_cases [of c s b s1] w Inr Some by simp
        then show ?thesis using l r by (simp add: adds_same)
      next
        case None
        let ?elapsed = "(clock s1 - start_time) div 1000"
        let ?due = "?elapsed mod 5 = 0 \<and> ?elapsed \<noteq> last_log_time"
        let ?s2 = "if ?due then log ''waiting for device verification'' INFO s1 else s1"
        let ?ll = "if ?due then ?elapsed else last_log_time"
        have l: "wait_device_states c start_time deadline last_log_time s =
            s # wait_device_states c start_time deadline ?ll (sleep 1 ?s2)"
          using True w Inr None by (simp add: states Let_def)
        have r: "wait_device_loop c start_time deadline last_log_time s =
            wait_device_loop c start_time deadline ?ll (sleep 1 ?s2)"
          using True w Inr None by (simp add: unfold Let_def)
        have la: "last (wait_device_states c start_time deadline last_log_time s) =
            last (wait_device_states c start_time deadline ?ll (sleep 1 ?s2))"
          using l wait_device_states_last by simp
        have a1: "adds no_approval s s1" using quiet_wait_device_poll [of c s] w Inr None by simp
        have a2: "adds no_approval s1 ?s2" by (simp add: adds_log adds_same)
        have a3: "adds no_approval ?s2 (sleep 1 ?s2)"
          by (rule adds_sleep) (simp add: no_approval_def)
        have a: "adds no_approval s (sleep 1 ?s2)"
          using adds_trans [OF adds_trans [OF a1 a2] a3] .
        note ih = "1.IH" [OF True w [symmetric] Inr None refl refl refl]
        show ?thesis
          using ih adds_trans [OF a] r la by simp
      qed
    qed
  qed
qed

text \<open>
  C4.  Let \<open>sk\<close> be the last state in which the loop of \<open>wait_device\<close> tests its
  guard; the deadline is 30 seconds after the start of the loop.  No text about a
  passed verification is sent before \<open>sk\<close>, nor between \<open>sk\<close> and the two later tests
  of the URL (after the click on a continue button, after the sweep that follows the
  deadline).  When \<open>wait_device\<close> returns true, its final state is the success report
  of one of the three tests, the log line is written in the very state that was tested,
  and the URL of that state contains neither \<open>verified-device\<close> nor
  \<open>device-verification\<close>.  When it does not return true, no such text has been sent
  at all.  When the deadline has passed at \<open>sk\<close> and the URL is still on the
  verification path after the sweep, \<open>wait_device\<close> returns false with the time-out
  report.
\<close>

theorem wait_device_reports:
  assumes "s4 = wait_device_begin c s"
    and "deadline = clock s4 + 1000 * DEVICE_VERIFY_WAIT"
    and "sk = last (wait_device_states c (clock s4) deadline 0 s4)"
  shows "deadline = clock s4 + 30000
     \<and> adds no_approval s sk
     \<and> adds no_approval sk (after_continue sk)
     \<and> adds no_approval sk (after_sweep sk)
     \<and> (fst (wait_device c s) = Inr True \<longrightarrow>
          (clock sk < deadline \<and> off_device sk
            \<and> snd (wait_device c s) =
                send c DeviceApproved (log ''device verification passed'' SUCCESS sk))
          \<or> (clock sk < deadline \<and> \<not> off_device sk \<and> off_device (after_continue sk)
            \<and> snd (wait_device c s) =
                log ''device verification passed after continue'' SUCCESS (after_continue sk))
          \<or> (deadline \<le> clock sk \<and> off_device (after_sweep sk)
            \<and> snd (wait_device c s) =
                send c DeviceApprovedForced
                  (log ''device verification passed after forced click'' SUCCESS (after_sweep sk))))
     \<and> (fst (wait_device c s) \<noteq> Inr True \<longrightarrow> adds no_approval s (snd (wait_device c s)))
     \<and> (deadline \<le> clock sk \<and> \<not> off_device (after_sweep sk) \<longrightarrow>
          wait_device c s =
            (Inr False, send c DeviceTimeout (log ''device verification timeout'' ERROR (after_sweep sk))))"
proof -
  have dl: "deadline = clock s4 + 30000" using assms(2) by (simp add: DEVICE_VERIFY_WAIT_def)
  have w: "wait_device c s = wait_device_loop c (clock s4) deadline 0 s4"
    using assms(1,2) wait_device_unfold [of c s] by simp
  note v = wait_device_loop_verdict [of c "clock s4" deadline 0 s4]
  note q = quiet_wait_device_loop [of s4 c "clock s4" deadline 0]
  have b4: "adds no_approval s s4" using assms(1) quiet_wait_device_begin [of s c] by simp
  have bk: "adds no_approval s sk" using adds_trans [OF b4] q assms(3) by simp
  have ac: "adds no_approval sk (after_continue sk)" by (rule quiet_after_continue)
  have sw: "adds no_approval sk (after_sweep sk)" by (rule quiet_after_sweep)
  have yes: "(clock sk < deadline \<and> off_device sk
            \<and> snd (wait_device c s) =
                send c DeviceApproved (log ''device verification passed'' SUCCESS sk))
          \<or> (clock sk < deadline \<and> \<not> off_device sk \<and> off_device (after_continue sk)
            \<and> snd (wait_device c s) =
                log ''device verification passed after continue'' SUCCESS (after_continue sk))
          \<or> (deadline \<le> clock sk \<and> off_device (after_sweep sk)
            \<and> snd (wait_device c s) =
                send c DeviceApprovedForced
                  (log ''device verification passed after forced click'' SUCCESS (after_sweep sk)))"
    if "fst (wait_device c s) = Inr True"
  proof -
    have "wait_device_loop c (clock s4) deadline 0 s4 = (Inr True, snd (wait_device c s))"
      using that w by (metis prod.collapse)
    then have "success_at c deadline sk (snd (wait_device c s))" using v assms(3) by simp
    then show ?thesis by (simp add: success_at_def)
  qed
  have no: "adds no_approval s (snd (wait_device c s))" if "fst (wait_device c s) \<noteq> Inr True"
    using that w q adds_trans [OF b4] by simp
  have late: "wait_device c s =
      (Inr False, send c DeviceTimeout (log ''device verification timeout'' ERROR (after_sweep sk)))"
    if b: "deadline \<le> clock sk \<and> \<not> off_device (after_sweep sk)"
  proof -
    have "wait_device c s = wait_device_timeout c sk" using b v w assms(3) by simp
    then show ?thesis
      using b by (simp add: wait_device_timeout_def after_sweep_def off_device_def Let_def)
  qed
  show ?thesis using dl bk ac sw yes no late by blast
qed

text \<open>
  An approval during the first second of the wait is reported as success; a page that
  never leaves the verification path is reported as a time-out once the 30 seconds and
  the sweep are over, and no text about a passed verification has been sent then.
\<close>

theorem wait_device_reports_witness:
  "fst (wait_device cfg_bare approved_world) = Inr True
   \<and> (off_device (last (wait_device_states cfg_bare (clock (wait_device_begin cfg_bare approved_world))
            (clock (wait_device_begin cfg_bare approved_world) + 1000 * DEVICE_VERIFY_WAIT) 0
            (wait_device_begin cfg_bare approved_world)))
       \<or> off_device (after_continue (last (wait_device_states cfg_bare
            (clock (wait_device_begin cfg_bare approved_world))
            (clock (wait_device_begin cfg_bare approved_world) + 1000 * DEVICE_VERIFY_WAIT) 0
            (wait_device_begin cfg_bare approved_world))))
       \<or> off_device (after_sweep (last (wait_device_states cfg_bare
            (clock (wait_device_begin cfg_bare approved_world))
            (clock (wait_device_begin cfg_bare approved_world) + 1000 * DEVICE_VERIFY_WAIT) 0
            (wait_device_begin cfg_bare approved_world)))))
   \<and> fst (wait_device cfg_bare timeout_world) = Inr False
   \<and> adds no_approval timeout_world (snd (wait_device cfg_bare timeout_world))"
proof -
  let ?b1 = "wait_device_begin cfg_bare approved_world"
  let ?k1 = "last (wait_device_states cfg_bare (clock ?b1) (clock ?b1 + 1000 * DEVICE_VERIFY_WAIT) 0 ?b1)"
  let ?b2 = "wait_device_begin cfg_bare timeout_world"
  let ?k2 = "last (wait_device_states cfg_bare (clock ?b2) (clock ?b2 + 1000 * DEVICE_VERIFY_WAIT) 0 ?b2)"
  have a: "fst (wait_device cfg_bare approved_world) = Inr True"
    by (simp add: wait_device_def wait_device_loop.simps wait_device_poll_def shot_def pad2_def
        send_def photo_def perform_def sleep_def log_def tg_ok_def truthy_def cfg_bare_def
        approved_world_def pending_def start_def fine_def continue_buttons_def
        DEVICE_VERIFY_WAIT_def Let_def)
  have b: "clock ?b2 + 1000 * DEVICE_VERIFY_WAIT \<le> clock ?k2 \<and> \<not> off_device (after_sweep ?k2)"
    by (simp add: wait_device_begin_def wait_device_states.simps wait_device_poll_def shot_def
        pad2_def send_def photo_def perform_def sleep_def log_def tg_ok_def truthy_def
        cfg_bare_def timeout_world_def pending_def start_def fine_def silent_def
        continue_buttons_def after_sweep_def off_device_def force_continue_buttons_def
        DEVICE_VERIFY_WAIT_def Let_def)
  note t1 = wait_device_reports [OF refl refl refl, of cfg_bare approved_world]
  note t2 = wait_device_reports [OF refl refl refl, of cfg_bare timeout_world]
  have d: "off_device ?k1 \<or> off_device (after_continue ?k1) \<or> off_device (after_sweep ?k1)"
    using t1 a by blast
  have f: "fst (wait_device cfg_bare timeout_world) = Inr False"
    using t2 b by simp
  have g: "adds no_approval timeout_world (snd (wait_device cfg_bare timeout_world))"
    using t2 f by simp
  show ?thesis using a d f g by blast
qed

subsection \<open>The two-factor step\<close>

text \<open>
  C8.  When the URL has no two-factor marker, \<open>detect_and_handle_2fa\<close> returns true after
  two log lines: it makes no call to the outside world (so it sends nothing to the
  operator, asks for no code and does not sleep), and the clock does not move.  Hence a
  call of this step that reaches the operator had the marker in its URL.
\<close>

theorem detect_2fa_skips_without_marker:
  assumes "\<not> contains ''two-factor'' (page_url s)"
  shows "fst (detect_and_handle_2fa c s) = True
         \<and> trace (snd (detect_and_handle_2fa c s)) = trace s
         \<and> clock (snd (detect_and_handle_2fa c s)) = clock s
         \<and> future (snd (detect_and_handle_2fa c s)) = future s"
  using assms by (simp add: detect_and_handle_2fa_def Let_def log_def)

theorem detect_2fa_skips_without_marker_witness:
  "\<not> contains ''two-factor'' (page_url (start ''https://github.com/login/oauth/authorize'' []))
   \<and> fst (detect_and_handle_2fa cfg_full (start ''https://github.com/login/oauth/authorize'' [])) = True
   \<and> trace (snd (detect_and_handle_2fa cfg_full (start ''https://github.com/login/oauth/authorize'' []))) = []"
proof -
  have h: "\<not> contains ''two-factor'' (page_url (start ''https://github.com/login/oauth/authorize'' []))"
    by (simp add: start_def)
  show ?thesis
    using h detect_2fa_skips_without_marker [OF h, of cfg_full]
    by (simp add: start_def)
qed

text \<open>
  C1 at the failing input.  During the wait for the push approval the page falls back
  to \<open>https://github.com/login\<close>.  That URL does not contain
  \<open>github.com/sessions/two-factor/\<close>, so the first test of the loop body takes it for an
  approval: the function returns true and tells the operator that 2FA passed.  The test
  for the login page, which comes second, is never reached with such a URL.
\<close>

theorem mobile_2fa_login_page_reported_as_success:
  "contains ''github.com/login'' ''https://github.com/login''
   \<and> fst (handle_mobile_2fa cfg_full expired_world) = True
   \<and> page_url (snd (handle_mobile_2fa cfg_full expired_world)) = ''https://github.com/login''
   \<and> messages_sent (trace (snd (handle_mobile_2fa cfg_full expired_world))) = [MobileNeeded, MobileApproved]"
  by (simp add: handle_mobile_2fa_def mobile_2fa_loop.simps shot_def send_def photo_def
      perform_def sleep_def log_def tg_ok_def truthy_def cfg_full_def expired_world_def
      start_def fine_def TWO_FACTOR_WAIT_def messages_sent_def Let_def)

subsection \<open>complete\_oauth\_flow\<close>

lemma oauth_branch_sleeps:
  "count_sleeps (snd (oauth_branch attempt url s)) =
     count_sleeps s + (if fst (oauth_branch attempt url s) then 1 else 0)"
proof -
  let ?sa = "if attempt mod 5 = 0
             then log ''on the GitHub OAuth authorization page'' INFO
                    (snd (shot (''oauth_authorize_'' @ str_nat attempt) s))
             else s"
  let ?sb = "if attempt mod 5 = 0 then log ''on a GitHub page, going to ClawCloud'' INFO s else s"
  let ?sc = "if attempt mod 5 = 0
             then log ''back on the ClawCloud sign-in page, clicking GitHub again'' INFO
                    (snd (shot (''clawcloud_signin_'' @ str_nat attempt) s))
             else s"
  obtain ca sa2 where fa: "find_and_click authorize_selectors ''authorize button'' 3000 ?sa = (ca, sa2)"
    by (cases "find_and_click authorize_selectors ''authorize button'' 3000 ?sa")
  obtain rb sb2 where pb: "perform (Goto SIGNIN_URL 30000) ?sb = (rb, sb2)"
    by (cases "perform (Goto SIGNIN_URL 30000) ?sb")
  obtain cc sc2 where fc: "find_and_click github_selectors ''GitHub button'' 3000 ?sc = (cc, sc2)"
    by (cases "find_and_click github_selectors ''GitHub button'' 3000 ?sc")
  have a0: "count_sleeps ?sa = count_sleeps s" by (simp add: count_sleeps_log count_sleeps_shot)
  have b0: "count_sleeps ?sb = count_sleeps s" by (simp add: count_sleeps_log)
  have c0: "count_sleeps ?sc = count_sleeps s" by (simp add: count_sleeps_log count_sleeps_shot)
  have a2: "count_sleeps sa2 = count_sleeps s"
    using count_sleeps_find_and_click [of authorize_selectors "''authorize button''" 3000 ?sa] fa a0
    by simp
  have b2: "count_sleeps sb2 = count_sleeps s"
    using count_sleeps_perform [of "Goto SIGNIN_URL 30000" ?sb] pb b0 by simp
  have c2: "count_sleeps sc2 = count_sleeps s"
    using count_sleeps_find_and_click [of github_selectors "''GitHub button''" 3000 ?sc] fc c0
    by simp
  show ?thesis
    using fa pb fc a2 b2 c2
    by (simp add: oauth_branch_def Let_def count_sleeps_perform count_sleeps_sleep)
qed


lemma oauth_loop_sleeps:
  "count_sleeps (snd (oauth_loop as s)) \<le> count_sleeps s + length as
   \<and> (fst (oauth_loop as s) \<longrightarrow> count_sleeps (snd (oauth_loop as s)) < count_sleeps s + length as)
   \<and> (\<not> fst (oauth_loop as s) \<longrightarrow>
        count_sleeps (snd (oauth_loop as s)) = count_sleeps s + length as
        \<and> last (logs (snd (oauth_loop as s))) = (ERROR, ''OAuth flow timeout''))"
proof (induction as arbitrary: s)
  case Nil
  then show ?case by (simp add: count_sleeps_log) (simp add: log_def)
next
  case (Cons attempt rest)
  show ?case
  proof (cases "contains ''claw.cloud'' (page_url s) \<and> \<not> contains ''signin'' (lower (page_url s))")
    case True
    then show ?thesis by (simp add: Let_def count_sleeps_log)
  next
    case False
    obtain go s1 where b: "oauth_branch attempt (page_url s) s = (go, s1)"
      by (cases "oauth_branch attempt (page_url s) s")
    have c1: "count_sleeps s1 = count_sleeps s + (if go then 1 else 0)"
      using oauth_branch_sleeps [of attempt "page_url s" s] b by simp
    let ?s3 = "if attempt mod 5 = 0 then log ''waiting for the OAuth flow'' INFO (sleep 1 s1)
               else sleep 1 s1"
    have c3: "count_sleeps ?s3 = count_sleeps s1 + 1"
      by (simp add: count_sleeps_log count_sleeps_sleep)
    show ?thesis
    proof (cases go)
      case True
      then have "oauth_loop (attempt # rest) s = oauth_loop rest s1"
        using False b by (auto simp: Let_def)
      then show ?thesis using Cons.IH [of s1] c1 True by simp
    next
      case go: False
      then have "oauth_loop (attempt # rest) s = oauth_loop rest ?s3"
        using False b by (auto simp: Let_def)
      then show ?thesis using Cons.IH [of ?s3] c1 c3 go by simp
    qed
  qed
qed

text \<open>
  C5.  The loop is a \<open>for\<close> over the thirty values of \<open>range(30)\<close>, so it ends;
  every iteration that does not return sleeps exactly once, and the flow makes at most
  thirty such calls, fewer than thirty when it returns true (the returning iteration
  does not sleep): at most thirty iterations run.  An iteration that finds the URL on \<open>claw.cloud\<close> and not on the
  sign-in page returns true at once.  When the flow returns false, all thirty iterations
  were used, the last log line is the time-out, and the run ends with \<open>sys.exit(1)\<close>.
\<close>

theorem oauth_flow_bounded:
  "count_sleeps (snd (complete_oauth_flow s)) \<le> count_sleeps s + 30
   \<and> (fst (complete_oauth_flow s) \<longrightarrow>
        count_sleeps (snd (complete_oauth_flow s)) < count_sleeps s + 30)
   \<and> (contains ''claw.cloud'' (page_url s) \<and> \<not> contains ''signin'' (lower (page_url s))
        \<longrightarrow> oauth_loop (attempt # rest) s = (True, log ''on a ClawCloud page'' SUCCESS s))
   \<and> (\<not> fst (complete_oauth_flow (log ''step 4: complete the OAuth flow'' STEP s)) \<longrightarrow>
        count_sleeps (snd (complete_oauth_flow (log ''step 4: complete the OAuth flow'' STEP s)))
          = count_sleeps s + 30
        \<and> last (logs (snd (complete_oauth_flow (log ''step 4: complete the OAuth flow'' STEP s))))
          = (ERROR, ''OAuth flow timeout'')
        \<and> fst (run_oauth c s) = SysExit 1
        \<and> exit_status (fst (run_oauth c s)) \<noteq> 0)"
proof (intro conjI impI)
  let ?s4 = "log ''step 4: complete the OAuth flow'' STEP s"
  show "count_sleeps (snd (complete_oauth_flow s)) \<le> count_sleeps s + 30"
    using oauth_loop_sleeps [of "[0..<max_attempts]" "log ''handling the OAuth flow'' STEP s"]
    by (simp add: complete_oauth_flow_def count_sleeps_log max_attempts_def)
  show "count_sleeps (snd (complete_oauth_flow s)) < count_sleeps s + 30"
    if "fst (complete_oauth_flow s)"
    using that oauth_loop_sleeps [of "[0..<max_attempts]" "log ''handling the OAuth flow'' STEP s"]
    by (simp add: complete_oauth_flow_def count_sleeps_log max_attempts_def)
  show "oauth_loop (attempt # rest) s = (True, log ''on a ClawCloud page'' SUCCESS s)"
    if "contains ''claw.cloud'' (page_url s) \<and> \<not> contains ''signin'' (lower (page_url s))"
    using that by (simp add: Let_def)
  assume f: "\<not> fst (complete_oauth_flow ?s4)"
  then show "count_sleeps (snd (complete_oauth_flow ?s4)) = count_sleeps s + 30"
    and "last (logs (snd (complete_oauth_flow ?s4))) = (ERROR, ''OAuth flow timeout'')"
    using oauth_loop_sleeps [of "[0..<max_attempts]" "log ''handling the OAuth flow'' STEP ?s4"]
    by (simp_all add: complete_oauth_flow_def count_sleeps_log max_attempts_def)
  from f show r: "fst (run_oauth c s) = SysExit 1"
    by (cases "complete_oauth_flow ?s4") (simp add: run_oauth_def)
  then show "exit_status (fst (run_oauth c s)) \<noteq> 0" by simp
qed

lemma attempts_30: "[0..<30] = [0, 1, 2, 3, 4, 5, 6, 7, 8, 9, 10, 11, 12, 13, 14, 15, 16, 17, 18, 19, 20, 21, 22, 23, 24, 25, 26, 27, 28, 29 :: nat]"
  by code_simp

text \<open>
  A page on the console succeeds in the first iteration; a page that stays on the GitHub
  login uses up the budget.
\<close>

theorem oauth_flow_bounded_witness:
  "oauth_loop [0] (start ''https://ap-northeast-1.run.claw.cloud/'' []) =
     (True, log ''on a ClawCloud page'' SUCCESS (start ''https://ap-northeast-1.run.claw.cloud/'' []))
   \<and> count_sleeps (snd (complete_oauth_flow (log ''step 4: complete the OAuth flow'' STEP
         (start ''https://github.com/login'' [])))) = 30
   \<and> fst (run_oauth cfg_bare (start ''https://github.com/login'' [])) = SysExit 1"
proof -
  have a: "contains ''claw.cloud'' (page_url (start ''https://ap-northeast-1.run.claw.cloud/'' []))
      \<and> \<not> contains ''signin'' (lower (page_url (start ''https://ap-northeast-1.run.claw.cloud/'' [])))"
    by (simp add: start_def lower_def lower_char_def)
  have b: "\<not> fst (complete_oauth_flow (log ''step 4: complete the OAuth flow'' STEP
      (start ''https://github.com/login'' [])))"
    by (simp add: complete_oauth_flow_def max_attempts_def oauth_branch_def perform_def sleep_def
        log_def start_def Let_def attempts_30)
  have c: "count_sleeps (start ''https://github.com/login'' []) = 0"
    by (simp add: count_sleeps_def start_def)
  show ?thesis
    using oauth_flow_bounded [of "start ''https://ap-northeast-1.run.claw.cloud/'' []" 0 "[]" cfg_bare]
      oauth_flow_bounded [of "start ''https://github.com/login'' []" 0 "[]" cfg_bare] a b c
    by simp
qed

subsection \<open>run\<close>

lemma adds_refl: "adds P s s"
  by (simp add: adds_same)

lemma adds_print: "adds P s s1 \<Longrightarrow> adds P s (print m s1)"
  by (simp add: adds_def trace_print)

lemma quiet_perform: "quiet a \<Longrightarrow> adds quiet s (snd (perform a s))"
  by (rule adds_perform)

lemma quiet_sleep: "adds quiet s (sleep k s)"
  by (rule adds_sleep) (simp add: quiet_def)

lemma quiet_shot: "adds quiet s (snd (shot name s))"
  by (rule adds_shot) (simp add: quiet_def)

lemma quiet_photo: "adds quiet s (photo c p cap s)"
  by (rule adds_photo) (simp add: quiet_def)

lemma quiet_photos: "adds quiet s (photos c ps s)"
proof (induction ps arbitrary: s)
  case Nil
  then show ?case by (simp add: adds_refl)
next
  case (Cons p ps)
  show ?case using adds_trans [OF quiet_photo Cons.IH] by simp
qed

lemma quiet_visit: "adds quiet s (visit us s)"
proof (induction us arbitrary: s)
  case Nil
  then show ?case by (simp add: adds_refl)
next
  case (Cons u us)
  obtain url name where u: "u = (url, name)" by (cases u)
  obtain r s1 where p: "perform (Goto url 30000) s = (r, s1)" by (cases "perform (Goto url 30000) s")
  have a1: "adds quiet s s1" using quiet_perform [of "Goto url 30000" s] p by (simp add: quiet_def)
  let ?w = "snd (perform (WaitForLoadState networkidle 15000) s1)"
  have a2: "adds quiet s1 ?w" by (rule quiet_perform) (simp add: quiet_def)
  have a3: "adds quiet s (sleep 2 (log (''visited: '' @ name) SUCCESS ?w))"
    using adds_trans [OF adds_log' [OF adds_trans [OF a1 a2]] quiet_sleep] .
  have a4: "adds quiet s (log (''visit failed: '' @ name) WARN s1)" using adds_log' [OF a1] .
  show ?case
    using u p adds_trans [OF a3 Cons.IH] adds_trans [OF a4 Cons.IH] by simp
qed

lemma quiet_keepalive: "adds quiet s (keepalive s)"
proof -
  let ?s2 = "visit urls_to_visit (log ''keepalive'' STEP s)"
  obtain r s3 where p: "perform (Goto (CLAW_CLOUD_URL @ ''/'') 30000) ?s2 = (r, s3)"
    by (cases "perform (Goto (CLAW_CLOUD_URL @ ''/'') 30000) ?s2")
  obtain r4 s4 where p4: "perform (WaitForLoadState networkidle 15000) s3 = (r4, s4)"
    by (cases "perform (WaitForLoadState networkidle 15000) s3")
  have a2: "adds quiet s ?s2" using adds_trans [OF adds_log quiet_visit] .
  have a3: "adds quiet s s3"
    using adds_trans [OF a2 quiet_perform [of "Goto (CLAW_CLOUD_URL @ ''/'') 30000" ?s2]] p
    by (simp add: quiet_def)
  have a4: "adds quiet s s4"
    using adds_trans [OF a3 quiet_perform [of "WaitForLoadState networkidle 15000" s3]] p4
    by (simp add: quiet_def)
  have e3: "adds quiet s (snd (shot ''done'' s3))" using adds_trans [OF a3 quiet_shot] .
  have e4: "adds quiet s (snd (shot ''done'' s4))" using adds_trans [OF a4 quiet_shot] .
  have e5: "adds quiet s (snd (shot ''done'' (sleep 2 s4)))"
    using adds_trans [OF adds_trans [OF a4 quiet_sleep] quiet_shot] .
  show ?thesis using p p4 e3 e4 e5 by (simp add: keepalive_def Let_def)
qed

lemma quiet_get_session: "adds quiet s (snd (get_session s))"
  using quiet_perform [of Cookies s]
  by (auto simp: get_session_def quiet_def split: prod.splits)

lemma quiet_update: "adds quiet s (snd (update c name v s))"
proof (cases "secret_ok c")
  case False
  then show ?thesis by (simp add: update_def adds_refl)
next
  case True
  obtain r0 s0 where p0: "perform ImportNacl s = (r0, s0)" by (cases "perform ImportNacl s")
  obtain r1 s1 where p1: "perform GetPublicKey s0 = (r1, s1)" by (cases "perform GetPublicKey s0")
  obtain r2 s2 where p2: "perform (Seal (body r1) v) s1 = (r2, s2)"
    by (cases "perform (Seal (body r1) v) s1")
  obtain r3 s3 where p3: "perform (PutSecret name (body r2)) s2 = (r3, s3)"
    by (cases "perform (PutSecret name (body r2)) s2")
  have a0: "adds quiet s s0" using quiet_perform [of ImportNacl s] p0 by (simp add: quiet_def)
  have a1: "adds quiet s s1"
    using adds_trans [OF a0 quiet_perform [of GetPublicKey s0]] p1 by (simp add: quiet_def)
  have a2: "adds quiet s s2"
    using adds_trans [OF a1 quiet_perform [of "Seal (body r1) v" s1]] p2 by (simp add: quiet_def)
  have a3: "adds quiet s s3"
    using adds_trans [OF a2 quiet_perform [of "PutSecret name (body r2)" s2]] p3
    by (simp add: quiet_def)
  show ?thesis
    using True p0 p1 p2 p3 a0 a1 a2 a3 by (simp add: update_def adds_print)
qed

lemma quiet_save_cookie: "adds quiet s (save_cookie c v s)"
proof (cases "truthy v")
  case False
  then show ?thesis by (simp add: save_cookie_def adds_refl)
next
  case True
  let ?s1 = "log ''new cookie'' SUCCESS s"
  obtain ok s2 where u: "update c ''GH_SESSION'' (the v) ?s1 = (ok, s2)"
    by (cases "update c ''GH_SESSION'' (the v) ?s1")
  have a2: "adds quiet s s2"
    using adds_trans [OF adds_log quiet_update [of ?s1 c "''GH_SESSION''" "the v"]] u by simp
  have y: "adds quiet s (send c CookieUpdated (log ''GH_SESSION updated'' SUCCESS s2))"
    using adds_trans [OF adds_log' [OF a2] adds_send [of quiet CookieUpdated]]
    by (simp add: quiet_def)
  have n: "adds quiet s (log ''cookie sent through Telegram'' SUCCESS (send c (NewCookie (the v)) s2))"
    using adds_log' [OF adds_trans [OF a2 adds_send [of quiet "NewCookie (the v)"]]]
    by (simp add: quiet_def)
  show ?thesis using True u y n by (simp add: save_cookie_def Let_def)
qed

lemma quiet_notify_ok: "adds quiet s (notify c True err s)"
proof (cases "tg_ok c")
  case False
  then show ?thesis by (simp add: notify_def adds_refl)
next
  case True
  let ?s1 = "send c (Report True (username c) err (last_n 10 (logs s))) s"
  have a1: "adds quiet s ?s1" by (rule adds_send) (simp add: quiet_def)
  have "adds quiet s (photo c (last (shots ?s1)) ''done'' ?s1)"
    using adds_trans [OF a1 quiet_photo] .
  then show ?thesis using True a1 by (simp add: notify_def Let_def)
qed

lemma adds_keeps_message:
  "adds P s s' \<Longrightarrow> m \<in> set (messages_sent (trace s)) \<Longrightarrow> m \<in> set (messages_sent (trace s'))"
  by (auto simp: adds_iff messages_sent_append)

lemma adds_keeps_call: "adds P s s' \<Longrightarrow> a \<in> set (trace s) \<Longrightarrow> a \<in> set (trace s')"
  by (auto simp: adds_iff)

lemma notify_reports:
  assumes "tg_ok c"
  shows "Report ok (username c) err (last_n 10 (logs s)) \<in> set (messages_sent (trace (notify c ok err s)))"
proof -
  let ?m = "Report ok (username c) err (last_n 10 (logs s))"
  let ?s1 = "send c ?m s"
  have m1: "?m \<in> set (messages_sent (trace ?s1))"
    using assms by (simp add: trace_send messages_sent_append) (simp add: messages_sent_def)
  have "adds quiet ?s1 (notify c ok err s)"
    using assms
    by (cases ok) (simp_all add: notify_def Let_def adds_refl quiet_photo quiet_photos)
  from adds_keeps_message [OF this m1] show ?thesis .
qed






lemma stdout_perform: "stdout (snd (perform a s)) = stdout s"
  by (simp add: perform_def split: list.splits)

lemma new_call_perform: "a \<in> set (drop (length (trace s)) (trace (snd (perform a s))))"
  by (simp add: trace_perform)

lemma new_call_earlier:
  "adds P s s1 \<Longrightarrow> adds Q s1 s2 \<Longrightarrow> a \<in> set (drop (length (trace s1)) (trace s2))
     \<Longrightarrow> a \<in> set (drop (length (trace s)) (trace s2))"
  by (auto simp: adds_iff)

lemma new_call_later:
  "adds P s s1 \<Longrightarrow> adds Q s1 s2 \<Longrightarrow> a \<in> set (drop (length (trace s)) (trace s1))
     \<Longrightarrow> a \<in> set (drop (length (trace s)) (trace s2))"
  by (auto simp: adds_iff)

lemma keepalive_visits:
  "Goto (CLAW_CLOUD_URL @ ''/'') 30000 \<in> set (drop (length (trace s)) (trace (keepalive s)))"
proof -
  let ?g = "Goto (CLAW_CLOUD_URL @ ''/'') 30000"
  let ?s2 = "visit urls_to_visit (log ''keepalive'' STEP s)"
  obtain r s3 where p: "perform ?g ?s2 = (r, s3)" by (cases "perform ?g ?s2")
  obtain r4 s4 where p4: "perform (WaitForLoadState networkidle 15000) s3 = (r4, s4)"
    by (cases "perform (WaitForLoadState networkidle 15000) s3")
  have a2: "adds quiet s ?s2" using adds_trans [OF adds_log quiet_visit] .
  have a3: "adds quiet ?s2 s3" using quiet_perform [of ?g ?s2] p by (simp add: quiet_def)
  have a4: "adds quiet s3 s4"
    using quiet_perform [of "WaitForLoadState networkidle 15000" s3] p4 by (simp add: quiet_def)
  have "?g \<in> set (drop (length (trace ?s2)) (trace s3))"
    using new_call_perform [of ?g ?s2] p by simp
  then have g3: "?g \<in> set (drop (length (trace s)) (trace s3))"
    using new_call_earlier [OF a2 a3] by simp
  have e3: "?g \<in> set (drop (length (trace s)) (trace (snd (shot ''done'' s3))))"
    using new_call_later [OF adds_trans [OF a2 a3] quiet_shot g3] .
  have g4: "?g \<in> set (drop (length (trace s)) (trace s4))"
    using new_call_later [OF adds_trans [OF a2 a3] a4 g3] .
  have a04: "adds quiet s s4" using adds_trans [OF adds_trans [OF a2 a3] a4] .
  have e4: "?g \<in> set (drop (length (trace s)) (trace (snd (shot ''done'' s4))))"
    using new_call_later [OF a04 quiet_shot g4] .
  have e5: "?g \<in> set (drop (length (trace s)) (trace (snd (shot ''done'' (sleep 2 s4)))))"
    using new_call_later [OF a04 adds_trans [OF quiet_sleep quiet_shot] g4] .
  show ?thesis using p p4 e3 e4 e5 by (simp add: keepalive_def Let_def)
qed

lemma get_session_reads: "Cookies \<in> set (drop (length (trace s)) (trace (snd (get_session s))))"
  using new_call_perform [of Cookies s]
  by (auto simp: get_session_def split: prod.splits)

lemma quiet_load_cookie: "adds quiet s (load_cookie c s)"
proof -
  let ?a = "AddCookies (session_cookies c)"
  have "adds quiet s (snd (perform ?a s))" by (rule quiet_perform) (simp add: quiet_def)
  then show ?thesis
    by (cases "perform ?a s") (simp add: load_cookie_def adds_refl adds_log')
qed

lemma quiet_run_open: "adds quiet s (snd (run_open c s))"
proof -
  let ?s2 = "log ''step 1: open ClawCloud'' STEP (load_cookie c s)"
  obtain r3 s3 where p3: "perform (Goto SIGNIN_URL 60000) ?s2 = (r3, s3)"
    by (cases "perform (Goto SIGNIN_URL 60000) ?s2")
  let ?s5 = "sleep 2 (snd (perform (WaitForLoadState networkidle 30000) s3))"
  have a3: "adds quiet s s3"
    using adds_trans [OF adds_log' [OF quiet_load_cookie]
        quiet_perform [of "Goto SIGNIN_URL 60000" ?s2]] p3
    by (simp add: quiet_def)
  have "adds quiet s3 (snd (perform (WaitForLoadState networkidle 30000) s3))"
    by (rule quiet_perform) (simp add: quiet_def)
  then have a5: "adds quiet s ?s5" using adds_trans [OF a3] adds_trans [OF _ quiet_sleep] by blast
  have a6: "adds quiet s (snd (shot ''clawcloud'' ?s5))" using adds_trans [OF a5 quiet_shot] .
  have "run_open c s =
      (case raised r3 of Some e \<Rightarrow> (Some e, s3) | None \<Rightarrow> (None, snd (shot ''clawcloud'' ?s5)))"
    using p3 by (cases "raised r3") (simp_all add: run_open_def Let_def case_prod_beta)
  then show ?thesis using a3 a6 by (cases "raised r3") simp_all
qed

lemma run_body_logged_in:
  assumes "run_open c s = (None, s6)" and "\<not> contains ''signin'' (lower (page_url s6))"
  shows "fst (run_body c s) = Inr Returned
         \<and> adds quiet s6 (snd (run_body c s))
         \<and> Goto (CLAW_CLOUD_URL @ ''/'') 30000 \<in> set (drop (length (trace s6)) (trace (snd (run_body c s))))
         \<and> Cookies \<in> set (drop (length (trace s6)) (trace (snd (run_body c s))))
         \<and> last (stdout (snd (run_body c s))) = ''success''
         \<and> (tg_ok c \<longrightarrow> (\<exists>ls. Report True (username c) [] ls
               \<in> set (messages_sent (trace (snd (run_body c s))))))"
proof -
  let ?s0 = "log ''already logged in'' SUCCESS s6"
  let ?s1 = "keepalive ?s0"
  obtain new s2 where g: "get_session ?s1 = (new, s2)" by (cases "get_session ?s1")
  let ?s3 = "if truthy new then save_cookie c new s2 else s2"
  let ?s4 = "notify c True [] ?s3"
  let ?s5 = "print ''success'' ?s4"
  have rb: "run_body c s = (Inr Returned, ?s5)"
    using assms g by (simp add: run_body_def run_logged_in_def Let_def)
  have a0: "adds quiet s6 ?s0" by (rule adds_log)
  have a1: "adds quiet ?s0 ?s1" by (rule quiet_keepalive)
  have a2: "adds quiet ?s1 s2" using quiet_get_session [of ?s1] g by simp
  have a3: "adds quiet s2 ?s3" using quiet_save_cookie [of s2 c new] by (simp add: adds_refl)
  have a4: "adds quiet ?s3 ?s4" by (rule quiet_notify_ok)
  have a5: "adds quiet ?s4 ?s5" by (simp add: adds_print adds_refl)
  have a35: "adds quiet s2 ?s5" using adds_trans [OF adds_trans [OF a3 a4] a5] .
  have a15: "adds quiet ?s1 ?s5" using adds_trans [OF a2 a35] .
  have a01: "adds quiet s6 ?s1" using adds_trans [OF a0 a1] .
  have all: "adds quiet s6 ?s5" using adds_trans [OF a01 a15] .
  have k: "Goto (CLAW_CLOUD_URL @ ''/'') 30000 \<in> set (drop (length (trace s6)) (trace ?s5))"
    using new_call_later [OF a01 a15 new_call_earlier [OF a0 a1 keepalive_visits [of ?s0]]] .
  have "Cookies \<in> set (drop (length (trace ?s1)) (trace s2))"
    using get_session_reads [of ?s1] g by simp
  then have "Cookies \<in> set (drop (length (trace ?s1)) (trace ?s5))"
    using new_call_later [OF a2 a35] by simp
  then have ck: "Cookies \<in> set (drop (length (trace s6)) (trace ?s5))"
    using new_call_earlier [OF a01 a15] by simp
  have out: "last (stdout ?s5) = ''success''" by (simp add: print_def)
  have rep: "\<exists>ls. Report True (username c) [] ls \<in> set (messages_sent (trace ?s5))" if "tg_ok c"
    using adds_keeps_message [OF a5 notify_reports [OF that, of True "[]" ?s3]] by blast
  show ?thesis using rb all k ck out rep by simp
qed

text \<open>
  C7.  The credentials are set, the browser starts, \<open>page.goto\<close> does not raise and the
  landing page is not the sign-in page.  Then \<open>run\<close> returns normally (exit status 0),
  and every call of the whole run is quiet: no click, no fill, no key press, no poll of
  the inbox, no text about device verification or 2FA.  After the look at the landing
  page come the visit of the console (keepalive) and the read of the cookies (token
  extraction); the last line printed is the success line, and with Telegram configured
  the success report is sent.
\<close>

theorem run_logged_in_skips_login:
  assumes "truthy (username c)" and "truthy (password c)"
    and "perform Launch (preamble s) = (r, s2)" and "raised r = None"
    and "run_open c s2 = (None, s6)"
    and "\<not> contains ''signin'' (lower (page_url s6))"
  shows "fst (run c s) = Returned
         \<and> exit_status (fst (run c s)) = 0
         \<and> adds quiet s (snd (run c s))
         \<and> Goto (CLAW_CLOUD_URL @ ''/'') 30000 \<in> set (drop (length (trace s6)) (trace (snd (run c s))))
         \<and> Cookies \<in> set (drop (length (trace s6)) (trace (snd (run c s))))
         \<and> last (stdout (snd (run c s))) = ''success''
         \<and> (tg_ok c \<longrightarrow> (\<exists>ls. Report True (username c) [] ls
               \<in> set (messages_sent (trace (snd (run c s))))))"
proof -
  obtain s7 where rb: "run_body c s2 = (Inr Returned, s7)"
    using run_body_logged_in [OF assms(5,6)] by (metis prod.collapse)
  note body = run_body_logged_in [OF assms(5,6)]
  let ?end = "snd (perform BrowserClose s7)"
  have rn: "run c s = (Returned, ?end)"
    using assms(1-4) rb by (simp add: run_def Let_def)
  have q0: "adds quiet s (preamble s)"
    by (simp add: preamble_def adds_same trace_log trace_print)
  have q1: "adds quiet (preamble s) s2"
    using quiet_perform [of Launch "preamble s"] assms(3) by (simp add: quiet_def)
  have q2: "adds quiet s2 s6" using quiet_run_open [of s2 c] assms(5) by simp
  have q3: "adds quiet s6 s7" using body rb by simp
  have q4: "adds quiet s7 ?end" by (rule quiet_perform) (simp add: quiet_def)
  have q06: "adds quiet s s6" using adds_trans [OF adds_trans [OF q0 q1] q2] .
  have q6e: "adds quiet s6 ?end" using adds_trans [OF q3 q4] .
  have all: "adds quiet s ?end" using adds_trans [OF q06 q6e] .
  have k: "Goto (CLAW_CLOUD_URL @ ''/'') 30000 \<in> set (drop (length (trace s6)) (trace ?end))"
    using new_call_later [OF q3 q4] body rb by simp
  have ck: "Cookies \<in> set (drop (length (trace s6)) (trace ?end))"
    using new_call_later [OF q3 q4] body rb by simp
  have out: "last (stdout ?end) = ''success''" using body rb by (simp add: stdout_perform)
  have rep: "\<exists>ls. Report True (username c) [] ls \<in> set (messages_sent (trace ?end))"
    if ok: "tg_ok c"
  proof -
    obtain ls where "Report True (username c) [] ls \<in> set (messages_sent (trace s7))"
      using body rb ok by auto
    from adds_keeps_message [OF q4 this] show ?thesis by blast
  qed
  show ?thesis using rn all k ck out rep by simp
qed

theorem run_logged_in_skips_login_witness:
  "truthy (username cfg_session) \<and> truthy (password cfg_session)
   \<and> raised (fst (perform Launch (preamble session_world))) = None
   \<and> fst (run_open cfg_session (snd (perform Launch (preamble session_world)))) = None
   \<and> \<not> contains ''signin''
         (lower (page_url (snd (run_open cfg_session (snd (perform Launch (preamble session_world)))))))
   \<and> fst (run cfg_session session_world) = Returned
   \<and> adds quiet session_world (snd (run cfg_session session_world))
   \<and> last (stdout (snd (run cfg_session session_world))) = ''success''"
proof -
  let ?s2 = "snd (perform Launch (preamble session_world))"
  have u: "truthy (username cfg_session)" and pw: "truthy (password cfg_session)"
    by (simp_all add: truthy_def cfg_session_def cfg_bare_def)
  have l: "raised (fst (perform Launch (preamble session_world))) = None"
    by (simp add: preamble_def session_world_def start_def fine_def perform_def log_def print_def)
  have p: "perform Launch (preamble session_world) = (fst (perform Launch (preamble session_world)), ?s2)"
    by simp
  have a0: "fst (run_open cfg_session ?s2) = None"
    by (simp add: run_open_def load_cookie_def session_token_def strip_def isspace_def
        cfg_session_def cfg_bare_def preamble_def session_world_def start_def fine_def
        perform_def sleep_def log_def print_def shot_def Let_def)
  have a: "run_open cfg_session ?s2 = (None, snd (run_open cfg_session ?s2))"
    using a0 by (simp add: prod_eq_iff)
  have "page_url (snd (run_open cfg_session ?s2)) = console"
    by (simp add: run_open_def load_cookie_def session_token_def strip_def isspace_def
        cfg_session_def cfg_bare_def preamble_def session_world_def start_def fine_def
        perform_def sleep_def log_def print_def shot_def Let_def)
  then have b: "\<not> contains ''signin'' (lower (page_url (snd (run_open cfg_session ?s2))))"
    by (simp add: console_def lower_def lower_char_def)
  show ?thesis
    using run_logged_in_skips_login [OF u pw p l a b] u pw l a0 b by simp
qed


subsection \<open>A fresh login without a renewed cookie\<close>









end
